theory Spec2Isabelle
  imports Main "HOL-Library.Sublist"
begin

section \<open>The Brainfuck decoder of \<open>bf-decoder.py\<close>\<close>

text \<open>
  The program text is a \<open>string\<close>: only membership in the eight ASCII command
  characters is ever asked of its characters. The input buffer and the output are
  Python strings whose characters are read with \<open>ord\<close> and made with \<open>chr\<close>,
  so they are lists of Unicode code points (\<open>nat\<close>, valid below \<open>0x110000\<close>).
  Tape cells, the cell pointer, the step counter and the limits are Python integers
  (\<open>int\<close>); program positions and the input index only ever count upwards from
  zero (\<open>nat\<close>).
\<close>

subsection \<open>Errors\<close>

text \<open>
  One constructor for each exception the code can raise:
  \<^item> \<open>ConfigurationError\<close>: \<open>ValueError("tape_size debe ser > 0")\<close> of the constructor;
  \<^item> \<open>UnmatchedClose pos\<close>: \<open>SyntaxError("Unmatched ']' en posicion pos")\<close>;
  \<^item> \<open>UnmatchedOpen pos\<close>: \<open>SyntaxError("Unmatched '[' en posicion pos")\<close>;
  \<^item> \<open>StepLimitExceeded m\<close>: \<open>RuntimeError("Max steps superado (m) ...")\<close>;
  \<^item> \<open>IndexError\<close>, \<open>KeyError\<close>, \<open>ChrRangeError\<close>: what Python itself raises on a
    list index out of range, a missing dictionary key and \<open>chr\<close> of a value outside
    \<open>range(0x110000)\<close>.
\<close>

datatype error =
    ConfigurationError
  | UnmatchedClose nat
  | UnmatchedOpen nat
  | StepLimitExceeded int
  | IndexError
  | KeyError
  | ChrRangeError

subsection \<open>Sanitizer\<close>

definition BF_CHARS :: "char set" where
  "BF_CHARS = set ''+-<>[],.''"

definition sanitize :: "string \<Rightarrow> string" where
  "sanitize program = concat [[c]. c \<leftarrow> program, c \<in> BF_CHARS]"

subsection \<open>Bracket matcher\<close>

text \<open>
  The \<open>for\<close> loop of \<open>build_bracket_map\<close> over \<open>enumerate(program)\<close>. The stack is a
  Python list used from its end: \<open>append\<close> adds a last element, \<open>pop\<close> removes it.
\<close>

fun scan :: "(nat \<times> char) list \<Rightarrow> nat list \<Rightarrow> (nat \<rightharpoonup> nat)
    \<Rightarrow> error + (nat list \<times> (nat \<rightharpoonup> nat))" where
  "scan [] stack bracket_map = Inr (stack, bracket_map)"
| "scan ((pos, ch) # rest) stack bracket_map =
     (if ch = CHR ''['' then scan rest (stack @ [pos]) bracket_map
      else if ch = CHR '']'' then
        (if stack = [] then Inl (UnmatchedClose pos)
         else (let start = last stack
               in scan rest (butlast stack) ((bracket_map(start \<mapsto> pos))(pos \<mapsto> start))))
      else scan rest stack bracket_map)"

definition build_bracket_map :: "string \<Rightarrow> error + (nat \<rightharpoonup> nat)" where
  "build_bracket_map program =
     (case scan (enumerate 0 program) [] Map.empty of
        Inl e \<Rightarrow> Inl e
      | Inr (stack, bracket_map) \<Rightarrow>
          if stack \<noteq> [] then Inl (UnmatchedOpen (last stack)) else Inr bracket_map)"

subsection \<open>Interpreter\<close>

record interp =
  tape :: "int list"
  ptr :: int
  max_steps :: int

text \<open>The interpreter's fields together with the local variables of \<open>run\<close>.\<close>

record frame = interp +
  ip :: nat
  steps :: int
  out_chars :: "nat list"
  in_idx :: nat

definition init :: "int \<Rightarrow> int \<Rightarrow> error + interp" where
  "init tape_size max_steps' =
     (if tape_size \<le> 0 then Inl ConfigurationError
      else Inr \<lparr>tape = replicate (nat tape_size) 0, ptr = 0, max_steps = max_steps'\<rparr>)"

text \<open>Python list indexing: a negative index counts from the end.\<close>

definition getitem :: "'a list \<Rightarrow> int \<Rightarrow> error + 'a" where
  "getitem xs i =
     (if 0 \<le> i \<and> i < int (length xs) then Inr (xs ! nat i)
      else if i < 0 \<and> - int (length xs) \<le> i then Inr (xs ! nat (int (length xs) + i))
      else Inl IndexError)"

definition setitem :: "'a list \<Rightarrow> int \<Rightarrow> 'a \<Rightarrow> error + 'a list" where
  "setitem xs i v =
     (if 0 \<le> i \<and> i < int (length xs) then Inr (xs[nat i := v])
      else if i < 0 \<and> - int (length xs) \<le> i then Inr (xs[nat (int (length xs) + i) := v])
      else Inl IndexError)"

definition chr :: "int \<Rightarrow> error + nat" where
  "chr v = (if 0 \<le> v \<and> v < 0x110000 then Inr (nat v) else Inl ChrRangeError)"

text \<open>The closing \<open>ip += 1\<close> of the loop body.\<close>

definition advance :: "frame \<Rightarrow> frame" where
  "advance s = s\<lparr>ip := ip s + 1\<rparr>"

text \<open>
  The body of the dispatch loop after \<open>cmd = program[ip]\<close>: the \<open>if\<close>/\<open>elif\<close> chain
  and the final \<open>ip += 1\<close>. Every raise happens before the iteration has changed
  the tape or the pointer.
\<close>

definition exec_cmd :: "char \<Rightarrow> (nat \<rightharpoonup> nat) \<Rightarrow> nat list \<Rightarrow> int \<Rightarrow> frame \<Rightarrow> error + frame" where
  "exec_cmd cmd bracket_map inbuf tape_len s =
     (if cmd = CHR ''>'' then
        Inr (advance (s\<lparr>ptr := (if ptr s + 1 \<ge> tape_len then 0 else ptr s + 1)\<rparr>))
      else if cmd = CHR ''<'' then
        Inr (advance (s\<lparr>ptr := (if ptr s - 1 < 0 then tape_len - 1 else ptr s - 1)\<rparr>))
      else if cmd = CHR ''+'' then
        (case getitem (tape s) (ptr s) of
           Inl e \<Rightarrow> Inl e
         | Inr v \<Rightarrow>
             (case setitem (tape s) (ptr s) ((v + 1) mod 256) of
                Inl e \<Rightarrow> Inl e
              | Inr t \<Rightarrow> Inr (advance (s\<lparr>tape := t\<rparr>))))
      else if cmd = CHR ''-'' then
        (case getitem (tape s) (ptr s) of
           Inl e \<Rightarrow> Inl e
         | Inr v \<Rightarrow>
             (case setitem (tape s) (ptr s) ((v - 1) mod 256) of
                Inl e \<Rightarrow> Inl e
              | Inr t \<Rightarrow> Inr (advance (s\<lparr>tape := t\<rparr>))))
      else if cmd = CHR ''.'' then
        (case getitem (tape s) (ptr s) of
           Inl e \<Rightarrow> Inl e
         | Inr v \<Rightarrow>
             (case chr v of
                Inl e \<Rightarrow> Inl e
              | Inr c \<Rightarrow> Inr (advance (s\<lparr>out_chars := out_chars s @ [c]\<rparr>))))
      else if cmd = CHR '','' then
        (if in_idx s < length inbuf then
           (case setitem (tape s) (ptr s) (int (inbuf ! in_idx s)) of
              Inl e \<Rightarrow> Inl e
            | Inr t \<Rightarrow> Inr (advance (s\<lparr>tape := t, in_idx := in_idx s + 1\<rparr>)))
         else
           (case setitem (tape s) (ptr s) 0 of
              Inl e \<Rightarrow> Inl e
            | Inr t \<Rightarrow> Inr (advance (s\<lparr>tape := t\<rparr>))))
      else if cmd = CHR ''['' then
        (case getitem (tape s) (ptr s) of
           Inl e \<Rightarrow> Inl e
         | Inr v \<Rightarrow>
             if v = 0 then
               (case bracket_map (ip s) of
                  None \<Rightarrow> Inl KeyError
                | Some j \<Rightarrow> Inr (advance (s\<lparr>ip := j\<rparr>)))
             else Inr (advance s))
      else if cmd = CHR '']'' then
        (case getitem (tape s) (ptr s) of
           Inl e \<Rightarrow> Inl e
         | Inr v \<Rightarrow>
             if v \<noteq> 0 then
               (case bracket_map (ip s) of
                  None \<Rightarrow> Inl KeyError
                | Some j \<Rightarrow> Inr (advance (s\<lparr>ip := j\<rparr>)))
             else Inr (advance s))
      else Inr (advance s))"

text \<open>
  One iteration of the \<open>while\<close> loop, entered with \<open>ip < len(program)\<close>: the step
  limit check, \<open>steps += 1\<close>, then the instruction.
\<close>

definition iteration :: "string \<Rightarrow> (nat \<rightharpoonup> nat) \<Rightarrow> nat list \<Rightarrow> int \<Rightarrow> frame \<Rightarrow> error + frame" where
  "iteration program bracket_map inbuf tape_len s =
     (if steps s \<ge> max_steps s then Inl (StepLimitExceeded (max_steps s))
      else exec_cmd (program ! ip s) bracket_map inbuf tape_len (s\<lparr>steps := steps s + 1\<rparr>))"

text \<open>
  The \<open>while\<close> loop. It returns the exception raised, if any, together with the frame
  of the iteration that raised it (no iteration changes the tape or the pointer before
  it raises), or the frame at the loop's exit: the tape and the pointer are fields of
  the interpreter object and outlive the call either way.
\<close>

function loop :: "string \<Rightarrow> (nat \<rightharpoonup> nat) \<Rightarrow> nat list \<Rightarrow> int \<Rightarrow> frame \<Rightarrow> error option \<times> frame" where
  "loop program bracket_map inbuf tape_len s =
     (if ip s < length program then
        (case iteration program bracket_map inbuf tape_len s of
           Inl e \<Rightarrow> (Some e, s)
         | Inr s' \<Rightarrow> loop program bracket_map inbuf tape_len s')
      else (None, s))"
  by pat_completeness auto
termination
proof (relation "measure (\<lambda>(program, bracket_map, inbuf, tape_len, s). nat (max_steps s - steps s))")
  show "wf (measure (\<lambda>(program, bracket_map, inbuf, tape_len, s). nat (max_steps s - steps s)))"
    by simp
next
  fix program :: string and bracket_map :: "nat \<rightharpoonup> nat" and inbuf :: "nat list"
    and tape_len :: int and s s' :: frame
  assume "iteration program bracket_map inbuf tape_len s = Inr s'"
  then have "steps s < max_steps s \<and> steps s' = steps s + 1 \<and> max_steps s' = max_steps s"
    by (auto simp: iteration_def exec_cmd_def advance_def
        split: if_splits sum.splits option.splits)
  then show "((program, bracket_map, inbuf, tape_len, s'), (program, bracket_map, inbuf, tape_len, s))
      \<in> measure (\<lambda>(program, bracket_map, inbuf, tape_len, s). nat (max_steps s - steps s))"
    by simp
qed

declare loop.simps [simp del]

text \<open>The frame at the start of \<open>run\<close>: \<open>ip = 0\<close>, \<open>steps = 0\<close>, \<open>out_chars = []\<close>, \<open>in_idx = 0\<close>.\<close>

definition start :: "interp \<Rightarrow> frame" where
  "start self = \<lparr>tape = tape self, ptr = ptr self, max_steps = max_steps self,
                 ip = 0, steps = 0, out_chars = [], in_idx = 0\<rparr>"

definition run :: "interp \<Rightarrow> string \<Rightarrow> nat list \<Rightarrow> (error + nat list) \<times> interp" where
  "run self program inbuf =
     (let program = sanitize program in
      case build_bracket_map program of
        Inl e \<Rightarrow> (Inl e, self)
      | Inr bracket_map \<Rightarrow>
          (case loop program bracket_map inbuf (int (length (tape self))) (start self) of
             (Some e, s) \<Rightarrow>
               (Inl e, \<lparr>tape = tape s, ptr = ptr s, max_steps = max_steps s\<rparr>)
           | (None, s) \<Rightarrow>
               (Inr (out_chars s), \<lparr>tape = tape s, ptr = ptr s, max_steps = max_steps s\<rparr>)))"

subsection \<open>Auxiliary notions for the proofs\<close>

text \<open>A bracket map is symmetric when every pair is recorded in both directions.\<close>

definition symmetric :: "(nat \<rightharpoonup> nat) \<Rightarrow> bool" where
  "symmetric m = (\<forall>p q. m p = Some q \<longrightarrow> m q = Some p)"

text \<open>
  The invariant of the scan: the map is symmetric, no key of the map is still on the
  stack, and the stack holds positions in increasing order.
\<close>

definition scan_inv :: "nat list \<Rightarrow> (nat \<rightharpoonup> nat) \<Rightarrow> bool" where
  "scan_inv stack m = (symmetric m \<and> dom m \<inter> set stack = {} \<and> sorted_wrt (<) stack)"

text \<open>
  The first \<open>n\<close> iterations of the dispatch loop with the step limit check left out:
  the frame after \<open>n\<close> executed instructions, or after fewer when the instruction
  pointer has reached the end of the program.
\<close>

fun exec_n :: "string \<Rightarrow> (nat \<rightharpoonup> nat) \<Rightarrow> nat list \<Rightarrow> int \<Rightarrow> nat \<Rightarrow> frame \<Rightarrow> error + frame" where
  "exec_n program bracket_map inbuf tape_len 0 s = Inr s"
| "exec_n program bracket_map inbuf tape_len (Suc n) s =
     (if ip s < length program then
        (case exec_cmd (program ! ip s) bracket_map inbuf tape_len (s\<lparr>steps := steps s + 1\<rparr>) of
           Inl e \<Rightarrow> Inl e
         | Inr s' \<Rightarrow> exec_n program bracket_map inbuf tape_len n s')
      else Inr s)"

text \<open>
  A Python string holds code points below \<open>0x110000\<close>. The interpreter objects a
  caller can hold: one freshly constructed with the given tape size and step limit, or
  one on which \<open>run\<close> has since been called with some program and input string
  (whether the call returned or raised).
\<close>

definition valid_str :: "nat list \<Rightarrow> bool" where
  "valid_str cs = list_all (\<lambda>c. c < 0x110000) cs"

text \<open>Every cell of a tape holds a value in \<open>[0, b)\<close>.\<close>

definition cells_below :: "int \<Rightarrow> int list \<Rightarrow> bool" where
  "cells_below b t = list_all (\<lambda>v. 0 \<le> v \<and> v < b) t"

inductive reachable :: "int \<Rightarrow> int \<Rightarrow> interp \<Rightarrow> bool" where
  fresh: "init tape_size limit = Inr self \<Longrightarrow> reachable tape_size limit self"
| ran: "reachable tape_size limit self \<Longrightarrow> valid_str inbuf \<Longrightarrow>
        reachable tape_size limit (snd (run self program inbuf))"

section \<open>Properties\<close>

subsection \<open>The sanitizer\<close>

text \<open>
  C7, as amended: the characters \<open><\<close>, \<open>-\<close> and \<open>>\<close> of the comment markers are
  commands themselves, so applying the sanitizer to the text \<open><!--++>-->\<close> drops the
  \<open>!\<close> only and yields \<open><--++>-->\<close>.
\<close>

theorem sanitize_noise_stripping: "sanitize ''<!--++>-->'' = ''<--++>-->''"
  by (simp add: sanitize_def BF_CHARS_def)

theorem sanitize_noise_stripping_counterexample: "sanitize ''<!--++>-->'' \<noteq> ''++>-->''"
  by (simp add: sanitize_def BF_CHARS_def)


lemma sanitize_filter: "sanitize s = filter (\<lambda>c. c \<in> BF_CHARS) s"
  by (induction s) (simp_all add: sanitize_def)

text \<open>
  C9: for every text, \<open>sanitize\<close> returns exactly the characters of the eight-symbol
  alphabet, in their original order, dropping all the others (it is the filter of the
  text by the alphabet, hence a subsequence of it); it is total, and idempotent.
\<close>

theorem sanitize_subsequence_idempotent:
  "sanitize s = filter (\<lambda>c. c \<in> {CHR ''+'', CHR ''-'', CHR ''<'', CHR ''>'',
                                 CHR ''['', CHR '']'', CHR ''.'', CHR '',''}) s
   \<and> subseq (sanitize s) s
   \<and> sanitize (sanitize s) = sanitize s"
proof -
  have "BF_CHARS = {CHR ''+'', CHR ''-'', CHR ''<'', CHR ''>'',
                    CHR ''['', CHR '']'', CHR ''.'', CHR '',''}"
    by (auto simp: BF_CHARS_def)
  then show ?thesis by (simp add: sanitize_filter)
qed

subsection \<open>The bracket matcher\<close>


lemma symmetric_pair:
  assumes "symmetric m" "a \<notin> dom m" "b \<notin> dom m"
  shows "symmetric ((m(a \<mapsto> b))(b \<mapsto> a))"
  unfolding symmetric_def
proof (intro allI impI)
  fix p q
  assume pq: "((m(a \<mapsto> b))(b \<mapsto> a)) p = Some q"
  show "((m(a \<mapsto> b))(b \<mapsto> a)) q = Some p"
  proof (cases "p = a \<or> p = b")
    case True
    then show ?thesis using pq by (auto split: if_splits)
  next
    case False
    then have mp: "m p = Some q" using pq by simp
    have mq: "m q = Some p" using assms(1) mp unfolding symmetric_def by blast
    then have "q \<noteq> a" "q \<noteq> b" using assms(2,3) by auto
    then show ?thesis using mq by simp
  qed
qed

lemma scan_inv_push:
  assumes "scan_inv stack m" "\<forall>p \<in> dom m \<union> set stack. p < pos"
  shows "scan_inv (stack @ [pos]) m"
  using assms unfolding scan_inv_def
  by (auto simp: sorted_wrt_append)

lemma scan_inv_pop:
  assumes "scan_inv stack m" "\<forall>p \<in> dom m \<union> set stack. p < pos" "stack \<noteq> []"
  shows "scan_inv (butlast stack) ((m(last stack \<mapsto> pos))(pos \<mapsto> last stack))"
proof -
  obtain ys y where st: "stack = ys @ [y]"
    using assms(3) by (metis snoc_eq_iff_butlast)
  have y: "y \<notin> dom m" "pos \<notin> dom m" "y \<notin> set ys" "pos \<notin> set ys" "y \<noteq> pos"
    using assms(1,2) unfolding scan_inv_def st by (auto simp: sorted_wrt_append)
  have "symmetric ((m(y \<mapsto> pos))(pos \<mapsto> y))"
    using assms(1) y by (simp add: symmetric_pair scan_inv_def)
  moreover have "dom ((m(y \<mapsto> pos))(pos \<mapsto> y)) \<inter> set ys = {}"
    using assms(1) y unfolding scan_inv_def st by auto
  moreover have "sorted_wrt (<) ys"
    using assms(1) unfolding scan_inv_def st by (simp add: sorted_wrt_append)
  ultimately show ?thesis by (simp add: scan_inv_def st)
qed

lemma scan_invariant:
  assumes "scan ps stack m = Inr (stack', m')"
    and "sorted_wrt (<) (map fst ps)"
    and "\<forall>p \<in> dom m \<union> set stack. \<forall>q \<in> fst ` set ps. p < q"
    and "scan_inv stack m"
  shows "scan_inv stack' m' \<and>
    dom m' \<union> set stack' =
      dom m \<union> set stack \<union> {p. (p, CHR ''['') \<in> set ps \<or> (p, CHR '']'') \<in> set ps}"
  using assms
proof (induction ps stack m rule: scan.induct)
  case (1 stack m)
  then show ?case by simp
next
  case (2 pos ch rest stack m)
  have lt: "\<forall>p \<in> dom m \<union> set stack. p < pos"
    using "2.prems"(3) by simp
  have rest: "sorted_wrt (<) (map fst rest)" "\<forall>q \<in> fst ` set rest. pos < q"
    using "2.prems"(2) by auto
  have later: "\<forall>p \<in> dom m \<union> set stack. \<forall>q \<in> fst ` set rest. p < q"
    using "2.prems"(3) by simp
  have fresh: "(pos, c) \<notin> set rest" for c
    using rest(2) by force
  show ?case
  proof (cases "ch = CHR ''[''")
    case True
    have sc: "scan rest (stack @ [pos]) m = Inr (stack', m')"
      using "2.prems"(1) True by simp
    have "\<forall>p \<in> dom m \<union> set (stack @ [pos]). \<forall>q \<in> fst ` set rest. p < q"
      using later rest(2) by auto
    from "2.IH"(1)[OF True sc rest(1) this scan_inv_push[OF "2.prems"(4) lt]]
    show ?thesis using True by auto
  next
    case False
    note nopen = this
    show ?thesis
    proof (cases "ch = CHR '']''")
      case True
      have ne: "stack \<noteq> []"
        using "2.prems"(1) nopen True by (auto split: if_splits)
      then obtain ys y where st: "stack = ys @ [y]"
        by (metis snoc_eq_iff_butlast)
      have sc: "scan rest (butlast stack) ((m(last stack \<mapsto> pos))(pos \<mapsto> last stack)) = Inr (stack', m')"
        using "2.prems"(1) nopen True ne by (simp add: Let_def)
      have d: "dom ((m(last stack \<mapsto> pos))(pos \<mapsto> last stack)) \<union> set (butlast stack)
          = insert pos (dom m \<union> set stack)"
        unfolding st by auto
      have b: "\<forall>p \<in> dom ((m(last stack \<mapsto> pos))(pos \<mapsto> last stack)) \<union> set (butlast stack).
                 \<forall>q \<in> fst ` set rest. p < q"
        unfolding d using later rest(2) by blast
      have ih: "scan_inv stack' m' \<and> dom m' \<union> set stack' =
          dom ((m(last stack \<mapsto> pos))(pos \<mapsto> last stack)) \<union> set (butlast stack) \<union>
          {p. (p, CHR ''['') \<in> set rest \<or> (p, CHR '']'') \<in> set rest}"
        by (rule "2.IH"(2)[OF nopen True ne refl sc rest(1) b scan_inv_pop[OF "2.prems"(4) lt ne]])
      have e: "{p. (p, CHR ''['') \<in> set ((pos, ch) # rest) \<or> (p, CHR '']'') \<in> set ((pos, ch) # rest)}
          = insert pos {p. (p, CHR ''['') \<in> set rest \<or> (p, CHR '']'') \<in> set rest}"
        using True by auto
      show ?thesis unfolding e using ih unfolding d by blast
    next
      case False
      have sc: "scan rest stack m = Inr (stack', m')"
        using "2.prems"(1) nopen False by simp
      from "2.IH"(3)[OF nopen False sc rest(1) later "2.prems"(4)]
      show ?thesis using nopen False by auto
    qed
  qed
qed


lemma scan_stack_opens:
  "scan ps stack m = Inr (stack', m') \<Longrightarrow>
     set stack' \<subseteq> set stack \<union> {p. (p, CHR ''['') \<in> set ps}"
proof (induction ps stack m rule: scan.induct)
  case (1 stack m)
  then show ?case by simp
next
  case (2 pos ch rest stack m)
  show ?case
  proof (cases "ch = CHR ''[''")
    case True
    then have "scan rest (stack @ [pos]) m = Inr (stack', m')"
      using "2.prems" by simp
    from "2.IH"(1)[OF True this] show ?thesis using True by auto
  next
    case False
    note nopen = this
    show ?thesis
    proof (cases "ch = CHR '']''")
      case True
      have ne: "stack \<noteq> []"
        using "2.prems" nopen True by (auto split: if_splits)
      have "scan rest (butlast stack) ((m(last stack \<mapsto> pos))(pos \<mapsto> last stack)) = Inr (stack', m')"
        using "2.prems" nopen True ne by (simp add: Let_def)
      from "2.IH"(2)[OF nopen True ne refl this]
      show ?thesis using in_set_butlastD by fastforce
    next
      case False
      then have "scan rest stack m = Inr (stack', m')"
        using "2.prems" nopen by simp
      from "2.IH"(3)[OF nopen False this] show ?thesis by auto
    qed
  qed
qed

lemma enumerate_member: "(p, c) \<in> set (enumerate 0 xs) \<longleftrightarrow> p < length xs \<and> xs ! p = c"
  by (auto simp: in_set_enumerate_eq)

lemma scan_program:
  assumes "scan (enumerate 0 program) [] Map.empty = Inr (stack, m)"
  shows "symmetric m" and "dom m \<inter> set stack = {}" and "sorted_wrt (<) stack"
    and "dom m \<union> set stack =
      {p. p < length program \<and> (program ! p = CHR ''['' \<or> program ! p = CHR '']'')}"
    and "set stack \<subseteq> {p. p < length program \<and> program ! p = CHR ''[''}"
proof -
  have s: "sorted_wrt (<) (map fst (enumerate 0 program))"
    by (simp add: map_fst_enumerate)
  have i: "scan_inv [] Map.empty"
    by (simp add: scan_inv_def symmetric_def)
  have "scan_inv stack m \<and> dom m \<union> set stack = dom (Map.empty :: nat \<rightharpoonup> nat) \<union> set [] \<union>
      {p. (p, CHR ''['') \<in> set (enumerate 0 program) \<or> (p, CHR '']'') \<in> set (enumerate 0 program)}"
    by (rule scan_invariant[OF assms s _ i]) simp
  then show "symmetric m" "dom m \<inter> set stack = {}" "sorted_wrt (<) stack"
    "dom m \<union> set stack =
      {p. p < length program \<and> (program ! p = CHR ''['' \<or> program ! p = CHR '']'')}"
    by (auto simp: scan_inv_def enumerate_member)
  show "set stack \<subseteq> {p. p < length program \<and> program ! p = CHR ''[''}"
    using scan_stack_opens[OF assms] by (auto simp: enumerate_member)
qed

lemma build_bracket_map_Inr:
  "build_bracket_map program = Inr m \<longleftrightarrow> scan (enumerate 0 program) [] Map.empty = Inr ([], m)"
  by (auto simp: build_bracket_map_def split: sum.splits)

text \<open>
  C5: when the bracket matcher succeeds, the keys of the map are exactly the positions of
  \<open>[\<close> and \<open>]\<close> in the program, the map is symmetric, and no two keys share a partner
  (each bracket position occurs once as a key and once as a value).
\<close>

theorem bracket_map_keys_symmetric:
  assumes "build_bracket_map program = Inr m"
  shows "dom m = {p. p < length program \<and> (program ! p = CHR ''['' \<or> program ! p = CHR '']'')}
    \<and> (\<forall>p q. m p = Some q \<longrightarrow> m q = Some p)
    \<and> inj_on m (dom m)"
proof -
  have sc: "scan (enumerate 0 program) [] Map.empty = Inr ([], m)"
    using assms by (simp add: build_bracket_map_Inr)
  have sym: "\<forall>p q. m p = Some q \<longrightarrow> m q = Some p"
    using scan_program(1)[OF sc] unfolding symmetric_def .
  have d: "dom m = {p. p < length program \<and> (program ! p = CHR ''['' \<or> program ! p = CHR '']'')}"
    using scan_program(4)[OF sc] by simp
  have "inj_on m (dom m)"
  proof (rule inj_onI)
    fix x y assume "x \<in> dom m" "y \<in> dom m" "m x = m y"
    then obtain q where "m x = Some q" "m y = Some q" by auto
    then have "m q = Some x" "m q = Some y" using sym by blast+
    then show "x = y" by simp
  qed
  with d sym show ?thesis by blast
qed

theorem bracket_map_keys_symmetric_witness:
  "build_bracket_map ''[]'' = Inr [0 \<mapsto> 1, 1 \<mapsto> 0]
   \<and> dom ([0 \<mapsto> 1, 1 \<mapsto> 0] :: nat \<rightharpoonup> nat) = {p. p < length ''[]'' \<and> (''[]'' ! p = CHR ''['' \<or> ''[]'' ! p = CHR '']'')}
   \<and> inj_on ([0 \<mapsto> 1, 1 \<mapsto> 0] :: nat \<rightharpoonup> nat) (dom ([0 \<mapsto> 1, 1 \<mapsto> 0] :: nat \<rightharpoonup> nat))"
proof -
  have h: "build_bracket_map ''[]'' = Inr [0 \<mapsto> 1, 1 \<mapsto> 0]"
    by (simp add: build_bracket_map_def)
  note t = bracket_map_keys_symmetric [OF h]
  show ?thesis
    by (rule conjI [OF h conjI [OF t [THEN conjunct1] t [THEN conjunct2, THEN conjunct2]]])
qed






subsection \<open>The interpreter\<close>

lemma setitem_length: "setitem xs i v = Inr ys \<Longrightarrow> length ys = length xs"
  by (auto simp: setitem_def split: if_splits)

lemma exec_cmd_keeps:
  assumes "exec_cmd cmd bm inbuf tlen s = Inr s'"
  shows "steps s' = steps s" and "max_steps s' = max_steps s"
    and "length (tape s') = length (tape s)"
  using assms
  by (auto simp: exec_cmd_def advance_def setitem_length split: if_splits sum.splits option.splits)

lemma exec_cmd_ptr:
  assumes "exec_cmd cmd bm inbuf tlen s = Inr s'" "0 \<le> ptr s" "ptr s < tlen"
  shows "0 \<le> ptr s' \<and> ptr s' < tlen"
  using assms
  by (auto simp: exec_cmd_def advance_def split: if_splits sum.splits option.splits)


lemma iteration_Inr:
  "iteration program bm inbuf tlen s = Inr s' \<longleftrightarrow>
     steps s < max_steps s \<and>
     exec_cmd (program ! ip s) bm inbuf tlen (s\<lparr>steps := steps s + 1\<rparr>) = Inr s'"
  by (auto simp: iteration_def)

lemma iteration_keeps:
  assumes "iteration program bm inbuf tlen s = Inr s'"
  shows "steps s' = steps s + 1" and "max_steps s' = max_steps s"
    and "length (tape s') = length (tape s)"
  using assms exec_cmd_keeps [of "program ! ip s" bm inbuf tlen "s\<lparr>steps := steps s + 1\<rparr>" s']
  by (simp_all add: iteration_Inr)

lemma iteration_ptr:
  assumes "iteration program bm inbuf tlen s = Inr s'" "0 \<le> ptr s" "ptr s < tlen"
  shows "0 \<le> ptr s' \<and> ptr s' < tlen"
  using assms exec_cmd_ptr [of "program ! ip s" bm inbuf tlen "s\<lparr>steps := steps s + 1\<rparr>" s']
  by (simp add: iteration_Inr)

lemma loop_keeps:
  "loop program bm inbuf tlen s = (r, s') \<Longrightarrow>
     max_steps s' = max_steps s \<and> length (tape s') = length (tape s)"
proof (induction program bm inbuf tlen s rule: loop.induct)
  case (1 program bm inbuf tlen s)
  show ?case
  proof (cases "ip s < length program")
    case False
    then show ?thesis using "1.prems" by (simp add: loop.simps)
  next
    case True
    show ?thesis
    proof (cases "iteration program bm inbuf tlen s")
      case (Inl e)
      then show ?thesis using "1.prems" True by (simp add: loop.simps)
    next
      case (Inr s1)
      then have "loop program bm inbuf tlen s1 = (r, s')"
        using "1.prems" True by (simp add: loop.simps)
      from "1.IH" [OF True Inr this] iteration_keeps [OF Inr] show ?thesis by simp
    qed
  qed
qed

lemma loop_ptr:
  "loop program bm inbuf tlen s = (r, s') \<Longrightarrow> 0 \<le> ptr s \<Longrightarrow> ptr s < tlen \<Longrightarrow>
     0 \<le> ptr s' \<and> ptr s' < tlen"
proof (induction program bm inbuf tlen s rule: loop.induct)
  case (1 program bm inbuf tlen s)
  show ?case
  proof (cases "ip s < length program")
    case False
    then show ?thesis using "1.prems" by (simp add: loop.simps)
  next
    case True
    show ?thesis
    proof (cases "iteration program bm inbuf tlen s")
      case (Inl e)
      then show ?thesis using "1.prems" True by (simp add: loop.simps)
    next
      case (Inr s1)
      then have l: "loop program bm inbuf tlen s1 = (r, s')"
        using "1.prems" True by (simp add: loop.simps)
      have "0 \<le> ptr s1 \<and> ptr s1 < tlen"
        using iteration_ptr [OF Inr] "1.prems" by simp
      with "1.IH" [OF True Inr l] show ?thesis by simp
    qed
  qed
qed

lemma loop_done:
  "exec_n program bm inbuf tlen n s = Inr s' \<Longrightarrow> length program \<le> ip s' \<Longrightarrow>
     steps s + int n \<le> max_steps s \<Longrightarrow> loop program bm inbuf tlen s = (None, s')"
proof (induction n arbitrary: s)
  case 0
  then show ?case by (simp add: loop.simps)
next
  case (Suc n)
  show ?case
  proof (cases "ip s < length program")
    case False
    then show ?thesis using Suc.prems by (simp add: loop.simps)
  next
    case True
    then obtain s1 where
      e: "exec_cmd (program ! ip s) bm inbuf tlen (s\<lparr>steps := steps s + 1\<rparr>) = Inr s1"
      and r: "exec_n program bm inbuf tlen n s1 = Inr s'"
      using Suc.prems(1) by (auto split: sum.splits)
    have it: "iteration program bm inbuf tlen s = Inr s1"
      using e Suc.prems(3) by (simp add: iteration_Inr)
    have "steps s1 + int n \<le> max_steps s1"
      using iteration_keeps [OF it] Suc.prems(3) by simp
    from Suc.IH [OF r Suc.prems(2) this] show ?thesis
      using True it by (simp add: loop.simps)
  qed
qed

lemma loop_limit:
  "exec_n program bm inbuf tlen n s = Inr s' \<Longrightarrow> ip s' < length program \<Longrightarrow>
     n = nat (max_steps s - steps s) \<Longrightarrow>
     loop program bm inbuf tlen s = (Some (StepLimitExceeded (max_steps s)), s')"
proof (induction n arbitrary: s)
  case 0
  then show ?case by (simp add: loop.simps iteration_def)
next
  case (Suc n)
  have True: "ip s < length program"
    using Suc.prems(1,2) by (auto split: if_splits)
  then obtain s1 where
    e: "exec_cmd (program ! ip s) bm inbuf tlen (s\<lparr>steps := steps s + 1\<rparr>) = Inr s1"
    and r: "exec_n program bm inbuf tlen n s1 = Inr s'"
    using Suc.prems(1) by (auto split: sum.splits)
  have it: "iteration program bm inbuf tlen s = Inr s1"
    using e Suc.prems(3) by (simp add: iteration_Inr)
  have "n = nat (max_steps s1 - steps s1)"
    using iteration_keeps [OF it] Suc.prems(3) by simp
  from Suc.IH [OF r Suc.prems(2) this] show ?case
    using True it iteration_keeps(2) [OF it] by (simp add: loop.simps)
qed


lemma interp_eq: "\<lparr>tape = tape self, ptr = ptr self, max_steps = max_steps self\<rparr> = (self :: interp)"
  by simp

lemma start_fields:
  "tape (start self) = tape self" "ptr (start self) = ptr self"
  "max_steps (start self) = max_steps self" "ip (start self) = 0" "steps (start self) = 0"
  "out_chars (start self) = []" "in_idx (start self) = 0"
  by (simp_all add: start_def)

lemma run_loop:
  assumes "build_bracket_map (sanitize program) = Inr bm"
    and "loop (sanitize program) bm inbuf (int (length (tape self))) (start self) = (r, s)"
  shows "run self program inbuf =
     ((case r of Some e \<Rightarrow> Inl e | None \<Rightarrow> Inr (out_chars s)),
      \<lparr>tape = tape s, ptr = ptr s, max_steps = max_steps s\<rparr>)"
  using assms by (simp add: run_def split: option.splits)

lemma run_bracket_error:
  "build_bracket_map (sanitize program) = Inl e \<Longrightarrow> run self program inbuf = (Inl e, self)"
  by (simp add: run_def)

lemma run_keeps:
  "max_steps (snd (run self program inbuf)) = max_steps self"
  "length (tape (snd (run self program inbuf))) = length (tape self)"
proof -
  show "max_steps (snd (run self program inbuf)) = max_steps self"
  proof (cases "build_bracket_map (sanitize program)")
    case (Inl e)
    then show ?thesis by (simp add: run_bracket_error)
  next
    case (Inr bm)
    obtain r s where l: "loop (sanitize program) bm inbuf (int (length (tape self))) (start self) = (r, s)"
      by (cases "loop (sanitize program) bm inbuf (int (length (tape self))) (start self)")
    show ?thesis using loop_keeps [OF l] by (simp add: run_loop [OF Inr l] start_fields)
  qed
  show "length (tape (snd (run self program inbuf))) = length (tape self)"
  proof (cases "build_bracket_map (sanitize program)")
    case (Inl e)
    then show ?thesis by (simp add: run_bracket_error)
  next
    case (Inr bm)
    obtain r s where l: "loop (sanitize program) bm inbuf (int (length (tape self))) (start self) = (r, s)"
      by (cases "loop (sanitize program) bm inbuf (int (length (tape self))) (start self)")
    show ?thesis using loop_keeps [OF l] by (simp add: run_loop [OF Inr l] start_fields)
  qed
qed

lemma run_ptr:
  assumes "0 \<le> ptr self" "ptr self < int (length (tape self))"
  shows "0 \<le> ptr (snd (run self program inbuf)) \<and>
         ptr (snd (run self program inbuf)) < int (length (tape self))"
proof (cases "build_bracket_map (sanitize program)")
  case (Inl e)
  then show ?thesis using assms by (simp add: run_bracket_error)
next
  case (Inr bm)
  obtain r s where l: "loop (sanitize program) bm inbuf (int (length (tape self))) (start self) = (r, s)"
    by (cases "loop (sanitize program) bm inbuf (int (length (tape self))) (start self)")
  show ?thesis using loop_ptr [OF l] assms by (simp add: run_loop [OF Inr l] start_fields)
qed

lemma reachable_inv:
  "reachable tape_size limit self \<Longrightarrow>
     0 < tape_size \<and> int (length (tape self)) = tape_size \<and> max_steps self = limit \<and>
     0 \<le> ptr self \<and> ptr self < tape_size"
proof (induction rule: reachable.induct)
  case (fresh tape_size limit self)
  then show ?case by (auto simp: init_def split: if_splits)
next
  case (ran tape_size limit self inbuf program)
  then show ?case using run_ptr [of self program inbuf] by (simp add: run_keeps)
qed

lemma exec_n_ptr:
  "exec_n program bm inbuf tlen n s = Inr s' \<Longrightarrow> 0 \<le> ptr s \<Longrightarrow> ptr s < tlen \<Longrightarrow>
     0 \<le> ptr s' \<and> ptr s' < tlen"
proof (induction n arbitrary: s)
  case 0
  then show ?case by simp
next
  case (Suc n)
  show ?case
  proof (cases "ip s < length program")
    case False
    then show ?thesis using Suc.prems by simp
  next
    case True
    then obtain s1 where
      e: "exec_cmd (program ! ip s) bm inbuf tlen (s\<lparr>steps := steps s + 1\<rparr>) = Inr s1"
      and r: "exec_n program bm inbuf tlen n s1 = Inr s'"
      using Suc.prems(1) by (auto split: sum.splits)
    have "0 \<le> ptr s1 \<and> ptr s1 < tlen"
      using exec_cmd_ptr [OF e] Suc.prems(2,3) by simp
    then show ?thesis using Suc.IH [OF r] by simp
  qed
qed


text \<open>
  C8: for every interpreter constructed with \<open>tape_size\<close> and then run any number of
  times, the cursor lies in \<open>[0, tape_size)\<close> and the tape keeps its length, and so does
  the cursor of every frame reached during a run; \<open>>\<close> at \<open>tape_size - 1\<close> wraps the
  cursor to 0 and \<open><\<close> at 0 wraps it to \<open>tape_size - 1\<close>; with \<open>tape_size = 1\<close> the
  cursor is 0 in every frame reached.
\<close>

theorem cursor_in_range:
  assumes "reachable tape_size limit self"
  shows "0 \<le> ptr self \<and> ptr self < tape_size \<and> int (length (tape self)) = tape_size
   \<and> (exec_n program bm inbuf tape_size n (start self) = Inr s \<longrightarrow>
        0 \<le> ptr s \<and> ptr s < tape_size)
   \<and> (ptr s1 = tape_size - 1 \<longrightarrow>
        exec_cmd CHR ''>'' bm inbuf tape_size s1 = Inr (advance (s1\<lparr>ptr := 0\<rparr>)))
   \<and> (ptr s1 = 0 \<longrightarrow>
        exec_cmd CHR ''<'' bm inbuf tape_size s1 = Inr (advance (s1\<lparr>ptr := tape_size - 1\<rparr>)))
   \<and> (tape_size = 1 \<and> exec_n program bm inbuf tape_size n (start self) = Inr s \<longrightarrow> ptr s = 0)"
proof -
  note inv = reachable_inv [OF assms]
  have a: "exec_n program bm inbuf tape_size n (start self) = Inr s \<longrightarrow>
        0 \<le> ptr s \<and> ptr s < tape_size"
    using exec_n_ptr [of program bm inbuf tape_size n "start self" s] inv
    by (simp add: start_fields)
  have b: "ptr s1 = tape_size - 1 \<longrightarrow>
        exec_cmd CHR ''>'' bm inbuf tape_size s1 = Inr (advance (s1\<lparr>ptr := 0\<rparr>))"
    by (simp add: exec_cmd_def)
  have c: "ptr s1 = 0 \<longrightarrow>
        exec_cmd CHR ''<'' bm inbuf tape_size s1 = Inr (advance (s1\<lparr>ptr := tape_size - 1\<rparr>))"
    by (simp add: exec_cmd_def)
  have d: "tape_size = 1 \<and> exec_n program bm inbuf tape_size n (start self) = Inr s \<longrightarrow> ptr s = 0"
    using a by auto
  from inv a b c d show ?thesis by blast
qed


theorem cursor_in_range_witness:
  "reachable 2 5 \<lparr>tape = [0, 0], ptr = 0, max_steps = 5\<rparr>
   \<and> exec_n ''>>>'' Map.empty [] 2 3 (start \<lparr>tape = [0, 0], ptr = 0, max_steps = 5\<rparr>)
       = Inr \<lparr>tape = [0, 0], ptr = 1, max_steps = 5, ip = 3, steps = 3, out_chars = [], in_idx = 0\<rparr>
   \<and> 0 \<le> ptr \<lparr>tape = [0, 0], ptr = 1, max_steps = 5, ip = 3, steps = 3, out_chars = [], in_idx = 0 :: nat\<rparr>
   \<and> ptr \<lparr>tape = [0, 0], ptr = 1, max_steps = 5, ip = 3, steps = 3, out_chars = [], in_idx = 0 :: nat\<rparr> < 2
   \<and> exec_cmd CHR ''>'' Map.empty [] 2
        \<lparr>tape = [0, 0], ptr = 1, max_steps = 5, ip = 1, steps = 2, out_chars = [], in_idx = 0\<rparr>
       = Inr \<lparr>tape = [0, 0], ptr = 0, max_steps = 5, ip = 2, steps = 2, out_chars = [], in_idx = 0\<rparr>
   \<and> exec_cmd CHR ''<'' Map.empty [] 2
        \<lparr>tape = [0, 0], ptr = 0, max_steps = 5, ip = 0, steps = 1, out_chars = [], in_idx = 0\<rparr>
       = Inr \<lparr>tape = [0, 0], ptr = 1, max_steps = 5, ip = 1, steps = 1, out_chars = [], in_idx = 0\<rparr>
   \<and> reachable 1 5 \<lparr>tape = [0], ptr = 0, max_steps = 5\<rparr>
   \<and> exec_n ''><>'' Map.empty [] 1 3 (start \<lparr>tape = [0], ptr = 0, max_steps = 5\<rparr>)
       = Inr \<lparr>tape = [0], ptr = 0, max_steps = 5, ip = 3, steps = 3, out_chars = [], in_idx = 0\<rparr>
   \<and> ptr \<lparr>tape = [0], ptr = 0, max_steps = 5, ip = 3, steps = 3, out_chars = [], in_idx = 0 :: nat\<rparr> = 0"
proof -
  let ?a = "\<lparr>tape = [0, 0], ptr = 0, max_steps = 5\<rparr>"
  let ?s = "\<lparr>tape = [0, 0], ptr = 1, max_steps = 5, ip = 3, steps = 3, out_chars = [], in_idx = 0\<rparr>"
  let ?r = "\<lparr>tape = [0, 0], ptr = 1, max_steps = 5, ip = 1, steps = 2, out_chars = [], in_idx = 0\<rparr>"
  let ?l = "\<lparr>tape = [0, 0], ptr = 0, max_steps = 5, ip = 0, steps = 1, out_chars = [], in_idx = 0\<rparr>"
  let ?b = "\<lparr>tape = [0], ptr = 0, max_steps = 5\<rparr>"
  let ?u = "\<lparr>tape = [0], ptr = 0, max_steps = 5, ip = 3, steps = 3, out_chars = [], in_idx = 0\<rparr>"
  have r: "reachable 2 5 ?a"
    by (rule reachable.fresh) (simp add: init_def numeral_2_eq_2)
  have e: "exec_n ''>>>'' Map.empty [] 2 3 (start ?a) = Inr ?s"
    by (simp add: numeral_3_eq_3 start_def exec_cmd_def advance_def)
  have pr: "ptr ?r = 2 - 1" and pl: "ptr ?l = 0"
    by simp_all
  have r1: "reachable 1 5 ?b"
    by (rule reachable.fresh) (simp add: init_def)
  have e1: "(1 :: int) = 1 \<and> exec_n ''><>'' Map.empty [] 1 3 (start ?b) = Inr ?u"
    by (simp add: numeral_3_eq_3 start_def exec_cmd_def advance_def)
  note t = cursor_in_range [OF r, where program = "''>>>''" and bm = Map.empty and inbuf = "[]"
      and n = 3]
  note c = t [THEN conjunct2, THEN conjunct2, THEN conjunct2, THEN conjunct1, THEN mp, OF e]
  note cr = t [where ?s1.0 = ?r, THEN conjunct2, THEN conjunct2, THEN conjunct2, THEN conjunct2,
      THEN conjunct1, THEN mp, OF pr]
  note cl = t [where ?s1.0 = ?l, THEN conjunct2, THEN conjunct2, THEN conjunct2, THEN conjunct2,
      THEN conjunct2, THEN conjunct1, THEN mp, OF pl]
  note t1 = cursor_in_range [OF r1, where program = "''><>''" and bm = Map.empty
      and inbuf = "[]" and n = 3]
  note c1 = t1 [THEN conjunct2, THEN conjunct2, THEN conjunct2, THEN conjunct2,
      THEN conjunct2, THEN conjunct2, THEN mp, OF e1]
  show ?thesis
    using r e c cr cl r1 e1 c1 by (simp add: advance_def)
qed

lemma stuck:
  assumes "ip s = 2" "getitem (tape s) (ptr s) = Inr v" "v \<noteq> 0"
  shows "fst (loop ''+[]'' [1 \<mapsto> 2, 2 \<mapsto> 1] inbuf tlen s) = Some (StepLimitExceeded (max_steps s))"
  using assms
proof (induction "nat (max_steps s - steps s)" arbitrary: s)
  case 0
  then show ?case by (simp add: loop.simps iteration_def)
next
  case (Suc k)
  have lt: "steps s < max_steps s" using Suc.hyps(2) by simp
  let ?s1 = "s\<lparr>steps := steps s + 1\<rparr>"
  have it: "iteration ''+[]'' [1 \<mapsto> 2, 2 \<mapsto> 1] inbuf tlen s = Inr ?s1"
    using lt Suc.prems by (simp add: iteration_def exec_cmd_def advance_def)
  have "k = nat (max_steps ?s1 - steps ?s1)" using Suc.hyps(2) by simp
  from Suc.hyps(1) [OF this] Suc.prems
  have "fst (loop ''+[]'' [1 \<mapsto> 2, 2 \<mapsto> 1] inbuf tlen ?s1) = Some (StepLimitExceeded (max_steps s))"
    by simp
  then show ?case using Suc.prems(1) it by (subst loop.simps) simp
qed

lemma bm_example: "build_bracket_map ''+[]'' = Inr [1 \<mapsto> 2, 2 \<mapsto> 1]"
  by (simp add: build_bracket_map_def numeral_2_eq_2)

lemma getitem_0: "xs \<noteq> [] \<Longrightarrow> getitem xs 0 = Inr (xs ! 0)"
  by (simp add: getitem_def)

lemma setitem_0: "xs \<noteq> [] \<Longrightarrow> setitem xs 0 v = Inr (xs[0 := v])"
  by (simp add: setitem_def)

lemma example_step_limit:
  assumes "init tape_size 1000 = Inr self"
  shows "fst (run self ''+[]'' inbuf) = Inl (StepLimitExceeded 1000)"
proof -
  have self: "self = \<lparr>tape = replicate (nat tape_size) 0, ptr = 0, max_steps = 1000\<rparr>" "0 < tape_size"
    using assms by (auto simp: init_def split: if_splits)
  define t where "t = replicate (nat tape_size) (0::int)"
  have ne: "t \<noteq> []" "t ! 0 = 0" using self(2) by (simp_all add: t_def)
  define tlen where "tlen = int (length (tape self))"
  let ?bm = "[1 \<mapsto> 2, 2 \<mapsto> 1 :: nat]"
  let ?s0 = "\<lparr>tape = t, ptr = 0, max_steps = 1000, ip = 0, steps = 0, out_chars = [], in_idx = 0\<rparr>"
  let ?s1 = "\<lparr>tape = t[0 := 1], ptr = 0, max_steps = 1000, ip = 1, steps = 1, out_chars = [], in_idx = 0\<rparr>"
  let ?s2 = "\<lparr>tape = t[0 := 1], ptr = 0, max_steps = 1000, ip = 2, steps = 2, out_chars = [], in_idx = 0\<rparr>"
  have i0: "iteration ''+[]'' ?bm inbuf tlen ?s0 = Inr ?s1"
    using ne by (simp add: iteration_def exec_cmd_def advance_def getitem_0 setitem_0)
  have g: "getitem (t[0 := 1]) 0 = Inr 1"
    using ne by (simp add: getitem_0)
  have i1: "iteration ''+[]'' ?bm inbuf tlen ?s1 = Inr ?s2"
    using g by (simp add: iteration_def exec_cmd_def advance_def)
  have "fst (loop ''+[]'' ?bm inbuf tlen ?s2) = Some (StepLimitExceeded (max_steps ?s2))"
    by (rule stuck [where v = 1]) (simp_all add: g)
  then have "fst (loop ''+[]'' ?bm inbuf tlen ?s1) = Some (StepLimitExceeded 1000)"
    using i1 by (subst loop.simps) simp
  then have l: "fst (loop ''+[]'' ?bm inbuf tlen ?s0) = Some (StepLimitExceeded 1000)"
    using i0 by (subst loop.simps) simp
  have san: "sanitize ''+[]'' = ''+[]''"
    by (simp add: sanitize_def BF_CHARS_def)
  have st: "start self = ?s0"
    by (simp add: start_def self(1) t_def)
  obtain r s where ls: "loop ''+[]'' ?bm inbuf tlen ?s0 = (r, s)"
    by (cases "loop ''+[]'' ?bm inbuf tlen ?s0")
  then have "r = Some (StepLimitExceeded 1000)" using l by simp
  then show ?thesis
    using run_loop [of "''+[]''" ?bm inbuf self r s] ls bm_example
    by (simp add: san st tlen_def)
qed



lemma loop_check:
  "ip s < length program \<Longrightarrow> max_steps s \<le> steps s \<Longrightarrow>
     loop program bm inbuf tlen s = (Some (StepLimitExceeded (max_steps s)), s)"
  by (simp add: loop.simps iteration_def)

text \<open>
  C2: the step counter is checked against \<open>max_steps\<close> before each instruction, and the
  loop raises \<open>StepLimitExceeded\<close> when the counter has reached it; a run that has not
  reached the end of the program after \<open>max_steps\<close> executed instructions fails with
  \<open>StepLimitExceeded\<close>, the result carrying no output; a run whose instruction pointer
  reaches the end after \<open>n \<le> max_steps\<close> executed instructions returns the whole output
  accumulated; and \<open>+[]\<close> with \<open>max_steps = 1000\<close> fails with \<open>StepLimitExceeded\<close>, on a
  fresh interpreter of any tape size.
\<close>

theorem step_limit_all_or_nothing:
  "(ip s < length prog \<and> max_steps s \<le> steps s \<longrightarrow>
      loop prog bm inbuf tlen s = (Some (StepLimitExceeded (max_steps s)), s))
   \<and> (build_bracket_map (sanitize program) = Inr bm
       \<and> exec_n (sanitize program) bm inbuf (int (length (tape self))) (nat (max_steps self)) (start self)
           = Inr s1
       \<and> ip s1 < length (sanitize program) \<longrightarrow>
      fst (run self program inbuf) = Inl (StepLimitExceeded (max_steps self)))
   \<and> (build_bracket_map (sanitize program) = Inr bm
       \<and> exec_n (sanitize program) bm inbuf (int (length (tape self))) n (start self) = Inr s2
       \<and> int n \<le> max_steps self \<and> length (sanitize program) \<le> ip s2 \<longrightarrow>
      fst (run self program inbuf) = Inr (out_chars s2))
   \<and> (init tape_size 1000 = Inr self0 \<longrightarrow>
      fst (run self0 ''+[]'' inbuf) = Inl (StepLimitExceeded 1000))"
proof (intro conjI impI)
  assume "ip s < length prog \<and> max_steps s \<le> steps s"
  then show "loop prog bm inbuf tlen s = (Some (StepLimitExceeded (max_steps s)), s)"
    by (simp add: loop_check)
next
  assume a: "build_bracket_map (sanitize program) = Inr bm
       \<and> exec_n (sanitize program) bm inbuf (int (length (tape self))) (nat (max_steps self)) (start self)
           = Inr s1
       \<and> ip s1 < length (sanitize program)"
  have "loop (sanitize program) bm inbuf (int (length (tape self))) (start self)
      = (Some (StepLimitExceeded (max_steps (start self))), s1)"
    by (rule loop_limit [where n = "nat (max_steps self)"]) (use a in \<open>simp_all add: start_fields\<close>)
  then show "fst (run self program inbuf) = Inl (StepLimitExceeded (max_steps self))"
    using a run_loop [of program bm inbuf self] by (simp add: start_fields)
next
  assume a: "build_bracket_map (sanitize program) = Inr bm
       \<and> exec_n (sanitize program) bm inbuf (int (length (tape self))) n (start self) = Inr s2
       \<and> int n \<le> max_steps self \<and> length (sanitize program) \<le> ip s2"
  have "loop (sanitize program) bm inbuf (int (length (tape self))) (start self) = (None, s2)"
    by (rule loop_done [where n = n]) (use a in \<open>simp_all add: start_fields\<close>)
  then show "fst (run self program inbuf) = Inr (out_chars s2)"
    using a run_loop [of program bm inbuf self] by simp
next
  assume "init tape_size 1000 = Inr self0"
  then show "fst (run self0 ''+[]'' inbuf) = Inl (StepLimitExceeded 1000)"
    by (rule example_step_limit)
qed



theorem step_limit_all_or_nothing_witness:
  "loop ''.+[]'' [2 \<mapsto> 3, 3 \<mapsto> 2] [] 1
      \<lparr>tape = [1], ptr = 0, max_steps = 4, ip = 3, steps = 4, out_chars = [0], in_idx = 0\<rparr>
     = (Some (StepLimitExceeded (max_steps
          \<lparr>tape = [1], ptr = 0, max_steps = 4, ip = 3, steps = 4, out_chars = [0], in_idx = 0 :: nat\<rparr>)),
        \<lparr>tape = [1], ptr = 0, max_steps = 4, ip = 3, steps = 4, out_chars = [0], in_idx = 0\<rparr>)
   \<and> build_bracket_map (sanitize ''.+[]'') = Inr [2 \<mapsto> 3, 3 \<mapsto> 2]
   \<and> exec_n (sanitize ''.+[]'') [2 \<mapsto> 3, 3 \<mapsto> 2] []
        (int (length (tape \<lparr>tape = [0], ptr = 0, max_steps = 4\<rparr>)))
        (nat (max_steps \<lparr>tape = [0], ptr = 0, max_steps = 4\<rparr>))
        (start \<lparr>tape = [0], ptr = 0, max_steps = 4\<rparr>)
       = Inr \<lparr>tape = [1], ptr = 0, max_steps = 4, ip = 3, steps = 4, out_chars = [0], in_idx = 0\<rparr>
   \<and> fst (run \<lparr>tape = [0], ptr = 0, max_steps = 4\<rparr> ''.+[]'' [])
       = Inl (StepLimitExceeded (max_steps \<lparr>tape = [0], ptr = 0, max_steps = 4\<rparr>))
   \<and> build_bracket_map (sanitize '',[.,]'') = Inr [1 \<mapsto> 4, 4 \<mapsto> 1]
   \<and> exec_n (sanitize '',[.,]'') [1 \<mapsto> 4, 4 \<mapsto> 1] [104, 105]
        (int (length (tape \<lparr>tape = [0], ptr = 0, max_steps = 8\<rparr>))) 8
        (start \<lparr>tape = [0], ptr = 0, max_steps = 8\<rparr>)
       = Inr \<lparr>tape = [0], ptr = 0, max_steps = 8, ip = 5, steps = 8,
              out_chars = [104, 105], in_idx = 2\<rparr>
   \<and> fst (run \<lparr>tape = [0], ptr = 0, max_steps = 8\<rparr> '',[.,]'' [104, 105])
       = Inr (out_chars \<lparr>tape = [0], ptr = 0, max_steps = 8, ip = 5, steps = 8,
              out_chars = [104, 105], in_idx = 2 :: nat\<rparr>)
   \<and> init 1 1000 = Inr \<lparr>tape = [0], ptr = 0, max_steps = 1000\<rparr>
   \<and> fst (run \<lparr>tape = [0], ptr = 0, max_steps = 1000\<rparr> ''+[]'' [])
       = Inl (StepLimitExceeded 1000)"
proof -
  let ?a = "\<lparr>tape = [0], ptr = 0, max_steps = 4\<rparr>"
  let ?b = "\<lparr>tape = [0], ptr = 0, max_steps = 8\<rparr>"
  let ?c = "\<lparr>tape = [0], ptr = 0, max_steps = 1000\<rparr>"
  let ?s1 = "\<lparr>tape = [1], ptr = 0, max_steps = 4, ip = 3, steps = 4, out_chars = [0], in_idx = 0\<rparr>"
  let ?s2 = "\<lparr>tape = [0], ptr = 0, max_steps = 8, ip = 5, steps = 8,
              out_chars = [104, 105], in_idx = 2\<rparr>"
  have san: "sanitize '',[.,]'' = '',[.,]''" "sanitize ''.+[]'' = ''.+[]''"
    by (simp_all add: sanitize_def BF_CHARS_def)
  have b1: "build_bracket_map (sanitize ''.+[]'') = Inr [2 \<mapsto> 3, 3 \<mapsto> 2]"
    by (simp add: san build_bracket_map_def eval_nat_numeral)
  have e1: "exec_n (sanitize ''.+[]'') [2 \<mapsto> 3, 3 \<mapsto> 2] [] (int (length (tape ?a)))
        (nat (max_steps ?a)) (start ?a) = Inr ?s1"
    by (simp add: san eval_nat_numeral start_def exec_cmd_def advance_def getitem_def
        setitem_def chr_def)
  have l1: "ip ?s1 < length (sanitize ''.+[]'')"
    by (simp add: san)
  have b2: "build_bracket_map (sanitize '',[.,]'') = Inr [1 \<mapsto> 4, 4 \<mapsto> 1]"
    by (simp add: san build_bracket_map_def eval_nat_numeral)
  have e2: "exec_n (sanitize '',[.,]'') [1 \<mapsto> 4, 4 \<mapsto> 1] [104, 105] (int (length (tape ?b)))
        8 (start ?b) = Inr ?s2"
    by (simp add: san eval_nat_numeral start_def exec_cmd_def advance_def getitem_def
        setitem_def chr_def)
  have l2: "int 8 \<le> max_steps ?b \<and> length (sanitize '',[.,]'') \<le> ip ?s2"
    by (simp add: san)
  have i: "init 1 1000 = Inr ?c"
    by (simp add: init_def)
  have l0: "ip ?s1 < length ''.+[]'' \<and> max_steps ?s1 \<le> steps ?s1"
    by simp
  note t1 = step_limit_all_or_nothing [where prog = "''.+[]''" and s = ?s1
      and bm = "[2 \<mapsto> 3, 3 \<mapsto> 2]" and inbuf = "[]" and tlen = 1]
  note c1 = t1 [THEN conjunct1, THEN mp, OF l0]
  note t2 = step_limit_all_or_nothing [where program = "''.+[]''" and bm = "[2 \<mapsto> 3, 3 \<mapsto> 2]"
      and inbuf = "[]" and self = ?a and ?s1.0 = ?s1 and tape_size = 1 and self0 = ?c]
  note t3 = step_limit_all_or_nothing [where program = "'',[.,]''" and bm = "[1 \<mapsto> 4, 4 \<mapsto> 1]"
      and inbuf = "[104, 105]" and self = ?b and ?s2.0 = ?s2 and n = 8]
  note c2 = t2 [THEN conjunct2, THEN conjunct1, THEN mp, OF conjI [OF b1 conjI [OF e1 l1]]]
  note c3 = t3 [THEN conjunct2, THEN conjunct2, THEN conjunct1, THEN mp,
      OF conjI [OF b2 conjI [OF e2 l2]]]
  note c4 = t2 [THEN conjunct2, THEN conjunct2, THEN conjunct2, THEN mp, OF i]
  show ?thesis
    by (rule conjI [OF c1 conjI [OF b1 conjI [OF e1 conjI [OF c2 conjI [OF b2 conjI [OF e2
          conjI [OF c3 conjI [OF i c4]]]]]]]])
qed





text \<open>
  C1, as amended: after every instruction the instruction pointer advances by one, also
  when the instruction has just set it. An instruction that does not jump leaves it at
  the next position; \<open>[\<close> on a zero cell leaves it one past the matching \<open>]\<close>; and when
  \<open>]\<close> executes at position \<open>q\<close> with the current cell nonzero and the bracket map
  sending \<open>q\<close> to \<open>p\<close>, the iteration ends with the pointer at \<open>p + 1\<close>: the next
  instruction executed is the one after the matching \<open>[\<close>, not the \<open>[\<close> itself.
\<close>

theorem ip_always_advances:
  "(exec_cmd cmd bm inbuf tlen s = Inr s'
      \<and> (cmd = CHR ''['' \<longrightarrow> getitem (tape s) (ptr s) \<noteq> Inr 0)
      \<and> (cmd = CHR '']'' \<longrightarrow> getitem (tape s) (ptr s) = Inr 0) \<longrightarrow>
      ip s' = ip s + 1)
   \<and> (getitem (tape s) (ptr s) = Inr 0 \<and> bm (ip s) = Some q \<longrightarrow>
      exec_cmd CHR ''['' bm inbuf tlen s = Inr (s\<lparr>ip := q + 1\<rparr>))
   \<and> (program ! ip s = CHR '']'' \<and> steps s < max_steps s
       \<and> getitem (tape s) (ptr s) = Inr v \<and> v \<noteq> 0 \<and> bm (ip s) = Some p \<longrightarrow>
      iteration program bm inbuf tlen s = Inr (s\<lparr>steps := steps s + 1, ip := p + 1\<rparr>))"
proof (intro conjI impI)
  assume "exec_cmd cmd bm inbuf tlen s = Inr s'
      \<and> (cmd = CHR ''['' \<longrightarrow> getitem (tape s) (ptr s) \<noteq> Inr 0)
      \<and> (cmd = CHR '']'' \<longrightarrow> getitem (tape s) (ptr s) = Inr 0)"
  then show "ip s' = ip s + 1"
    by (auto simp: exec_cmd_def advance_def split: if_splits sum.splits option.splits)
next
  assume "getitem (tape s) (ptr s) = Inr 0 \<and> bm (ip s) = Some q"
  then show "exec_cmd CHR ''['' bm inbuf tlen s = Inr (s\<lparr>ip := q + 1\<rparr>)"
    by (simp add: exec_cmd_def advance_def)
next
  assume "program ! ip s = CHR '']'' \<and> steps s < max_steps s
       \<and> getitem (tape s) (ptr s) = Inr v \<and> v \<noteq> 0 \<and> bm (ip s) = Some p"
  then show "iteration program bm inbuf tlen s = Inr (s\<lparr>steps := steps s + 1, ip := p + 1\<rparr>)"
    by (simp add: iteration_def exec_cmd_def advance_def)
qed

theorem ip_always_advances_counterexample:
  "build_bracket_map ''++[-]'' = Inr [2 \<mapsto> 4, 4 \<mapsto> 2]
   \<and> exec_n ''++[-]'' [2 \<mapsto> 4, 4 \<mapsto> 2] [] 1 4 (start \<lparr>tape = [0], ptr = 0, max_steps = 10\<rparr>)
       = Inr \<lparr>tape = [1], ptr = 0, max_steps = 10, ip = 4, steps = 4, out_chars = [], in_idx = 0\<rparr>
   \<and> ''++[-]'' ! 4 = CHR '']''
   \<and> iteration ''++[-]'' [2 \<mapsto> 4, 4 \<mapsto> 2] [] 1
        \<lparr>tape = [1], ptr = 0, max_steps = 10, ip = 4, steps = 4, out_chars = [], in_idx = 0\<rparr>
       = Inr \<lparr>tape = [1], ptr = 0, max_steps = 10, ip = 3, steps = 5, out_chars = [], in_idx = 0\<rparr>
   \<and> (3::nat) \<noteq> 2
   \<and> ''++[-]'' ! 3 = CHR ''-''"
  by (simp add: build_bracket_map_def eval_nat_numeral start_def iteration_def exec_cmd_def
      advance_def getitem_def setitem_def)

theorem ip_always_advances_witness:
  "exec_cmd CHR ''+'' Map.empty [] 1
      \<lparr>tape = [1], ptr = 0, max_steps = 10, ip = 1, steps = 2, out_chars = [], in_idx = 0\<rparr>
     = Inr \<lparr>tape = [2], ptr = 0, max_steps = 10, ip = 2, steps = 2, out_chars = [], in_idx = 0\<rparr>
   \<and> ip \<lparr>tape = [2], ptr = 0, max_steps = 10, ip = 2, steps = 2, out_chars = [], in_idx = 0 :: nat\<rparr>
     = ip \<lparr>tape = [1], ptr = 0, max_steps = 10, ip = 1, steps = 2, out_chars = [], in_idx = 0 :: nat\<rparr> + 1
   \<and> getitem [0 :: int] 0 = Inr 0
   \<and> exec_cmd CHR ''['' [0 \<mapsto> 2, 2 \<mapsto> 0] [] 1
      \<lparr>tape = [0], ptr = 0, max_steps = 10, ip = 0, steps = 0, out_chars = [], in_idx = 0\<rparr>
     = Inr (\<lparr>tape = [0], ptr = 0, max_steps = 10, ip = 0, steps = 0, out_chars = [], in_idx = 0\<rparr>
            \<lparr>ip := 2 + 1\<rparr>)
   \<and> iteration ''++[-]'' [2 \<mapsto> 4, 4 \<mapsto> 2] [] 1
        \<lparr>tape = [1], ptr = 0, max_steps = 10, ip = 4, steps = 4, out_chars = [], in_idx = 0\<rparr>
       = Inr (\<lparr>tape = [1], ptr = 0, max_steps = 10, ip = 4, steps = 4, out_chars = [], in_idx = 0\<rparr>
              \<lparr>steps := 4 + 1, ip := 2 + 1\<rparr>)"
proof -
  let ?s = "\<lparr>tape = [1], ptr = 0, max_steps = 10, ip = 1, steps = 2, out_chars = [], in_idx = 0\<rparr>"
  let ?s' = "\<lparr>tape = [2], ptr = 0, max_steps = 10, ip = 2, steps = 2, out_chars = [], in_idx = 0\<rparr>"
  let ?u = "\<lparr>tape = [0], ptr = 0, max_steps = 10, ip = 0, steps = 0, out_chars = [], in_idx = 0\<rparr>"
  let ?w = "\<lparr>tape = [1], ptr = 0, max_steps = 10, ip = 4, steps = 4, out_chars = [], in_idx = 0\<rparr>"
  have e: "exec_cmd CHR ''+'' Map.empty [] 1 ?s = Inr ?s'"
    by (simp add: exec_cmd_def advance_def getitem_def setitem_def)
  have h1: "exec_cmd CHR ''+'' Map.empty [] 1 ?s = Inr ?s'
      \<and> (CHR ''+'' = CHR ''['' \<longrightarrow> getitem (tape ?s) (ptr ?s) \<noteq> Inr 0)
      \<and> (CHR ''+'' = CHR '']'' \<longrightarrow> getitem (tape ?s) (ptr ?s) = Inr 0)"
    using e by simp
  have g: "getitem [0 :: int] 0 = Inr 0"
    by (simp add: getitem_def)
  have h2: "getitem (tape ?u) (ptr ?u) = Inr 0 \<and> [0 \<mapsto> 2, 2 \<mapsto> 0 :: nat] (ip ?u) = Some 2"
    by (simp add: getitem_def)
  have h3: "''++[-]'' ! ip ?w = CHR '']'' \<and> steps ?w < max_steps ?w
       \<and> getitem (tape ?w) (ptr ?w) = Inr 1 \<and> (1 :: int) \<noteq> 0
       \<and> [2 \<mapsto> 4, 4 \<mapsto> 2 :: nat] (ip ?w) = Some 2"
    by (simp add: getitem_def eval_nat_numeral)
  note c1 = ip_always_advances [where cmd = "CHR ''+''" and bm = Map.empty and inbuf = "[]"
      and tlen = 1 and s = ?s and s' = ?s', THEN conjunct1, THEN mp, OF h1]
  note c2 = ip_always_advances [where bm = "[0 \<mapsto> 2, 2 \<mapsto> 0]" and inbuf = "[]"
      and tlen = 1 and s = ?u and q = 2, THEN conjunct2, THEN conjunct1, THEN mp, OF h2]
  note c3 = ip_always_advances [where bm = "[2 \<mapsto> 4, 4 \<mapsto> 2]" and inbuf = "[]"
      and tlen = 1 and s = ?w and p = 2 and v = 1 and program = "''++[-]''",
      THEN conjunct2, THEN conjunct2, THEN mp, OF h3]
  show ?thesis
    using e c1 g c2 c3 by simp
qed

lemma sanitize_plus: "sanitize ''+'' = ''+''" and sanitize_dot: "sanitize ''.'' = ''.''"
  by (simp_all add: sanitize_def BF_CHARS_def)

lemma bm_plus: "build_bracket_map ''+'' = Inr Map.empty"
  and bm_dot: "build_bracket_map ''.'' = Inr Map.empty"
  by (simp_all add: build_bracket_map_def)

lemma run_plus:
  assumes "0 \<le> ptr self" "ptr self < int (length (tape self))" "1 \<le> max_steps self"
  shows "run self ''+'' inbuf =
    (Inr [], self\<lparr>tape := (tape self)[nat (ptr self) := (tape self ! nat (ptr self) + 1) mod 256]\<rparr>)"
proof -
  let ?t = "(tape self)[nat (ptr self) := (tape self ! nat (ptr self) + 1) mod 256]"
  let ?s = "\<lparr>tape = ?t, ptr = ptr self, max_steps = max_steps self,
             ip = 1, steps = 1, out_chars = [], in_idx = 0\<rparr>"
  have e: "exec_n ''+'' Map.empty inbuf (int (length (tape self))) 1 (start self) = Inr ?s"
    using assms(1,2)
    by (simp add: start_def exec_cmd_def advance_def getitem_def setitem_def)
  have "loop ''+'' Map.empty inbuf (int (length (tape self))) (start self) = (None, ?s)"
    by (rule loop_done [OF e]) (use assms(3) in \<open>simp_all add: start_fields\<close>)
  from run_loop [of "''+''" Map.empty inbuf self None ?s] this
  show ?thesis by (cases self) (simp add: sanitize_plus bm_plus)
qed

lemma run_dot:
  assumes "0 \<le> ptr self" "ptr self < int (length (tape self))" "1 \<le> max_steps self"
    and "0 \<le> tape self ! nat (ptr self)" "tape self ! nat (ptr self) < 0x110000"
  shows "run self ''.'' inbuf = (Inr [nat (tape self ! nat (ptr self))], self)"
proof -
  let ?s = "\<lparr>tape = tape self, ptr = ptr self, max_steps = max_steps self,
             ip = 1, steps = 1, out_chars = [nat (tape self ! nat (ptr self))], in_idx = 0\<rparr>"
  have e: "exec_n ''.'' Map.empty inbuf (int (length (tape self))) 1 (start self) = Inr ?s"
    using assms(1,2,4,5)
    by (simp add: start_def exec_cmd_def advance_def getitem_def chr_def)
  have "loop ''.'' Map.empty inbuf (int (length (tape self))) (start self) = (None, ?s)"
    by (rule loop_done [OF e]) (use assms(3) in \<open>simp_all add: start_fields\<close>)
  from run_loop [of "''.''" Map.empty inbuf self None ?s] this
  show ?thesis by (simp add: sanitize_dot bm_dot)
qed

lemma run_plus_then_dot:
  assumes "0 \<le> ptr self" "ptr self < int (length (tape self))" "1 \<le> max_steps self"
  shows "fst (run (snd (run self ''+'' inbuf)) ''.'' inbuf2)
     = Inr [nat ((tape self ! nat (ptr self) + 1) mod 256)]"
proof -
  let ?self1 = "self\<lparr>tape := (tape self)[nat (ptr self) := (tape self ! nat (ptr self) + 1) mod 256]\<rparr>"
  have lt: "nat (ptr self) < length (tape self)"
    using assms(1,2) by linarith
  have c: "tape ?self1 ! nat (ptr ?self1) = (tape self ! nat (ptr self) + 1) mod 256"
    using lt by simp
  have "run ?self1 ''.'' inbuf2 = (Inr [nat (tape ?self1 ! nat (ptr ?self1))], ?self1)"
    by (rule run_dot) (use assms c in simp_all)
  then show ?thesis using lt by (simp add: run_plus [OF assms])
qed


lemma run_snd:
  assumes "build_bracket_map (sanitize program) = Inr bm"
    and "loop (sanitize program) bm inbuf (int (length (tape self))) (start self) = (r, s)"
  shows "snd (run self program inbuf) = \<lparr>tape = tape s, ptr = ptr s, max_steps = max_steps self\<rparr>"
  using run_loop [OF assms] loop_keeps [OF assms(2)] by (simp add: start_fields)

text \<open>
  C3, as amended: the tape and the cursor are created by the constructor (all zeros,
  cursor 0) and live in the interpreter object; \<open>run\<close> creates only the instruction
  pointer, the step counter, the output and the input index, and starts from the tape
  and the cursor the object holds. When a run ends, the object holds the tape and the
  cursor of the last frame of the dispatch loop, both when the run returns its output
  and when it fails with \<open>StepLimitExceeded\<close>, and the next run starts from them. So
  on every interpreter with a step limit of at least 1, \<open>run("+")\<close> leaves the cell
  under the cursor incremented modulo 256 in the object and a following \<open>run(".")\<close>
  outputs that cell: on a freshly constructed interpreter the second run outputs
  \<open>chr(1)\<close> where a first \<open>run(".")\<close> outputs \<open>chr(0)\<close>. An object keeps its tape
  length and step limit through every run, and a run that fails in bracket matching
  leaves the object as it was.
\<close>

theorem tape_lives_in_the_instance:
  "(init tape_size limit = Inr self0 \<longrightarrow>
      tape self0 = replicate (nat tape_size) 0 \<and> ptr self0 = 0)
   \<and> tape (start self) = tape self \<and> ptr (start self) = ptr self
   \<and> ip (start self) = 0 \<and> steps (start self) = 0
   \<and> out_chars (start self) = [] \<and> in_idx (start self) = 0
   \<and> (build_bracket_map (sanitize program) = Inr bm
       \<and> loop (sanitize program) bm inbuf (int (length (tape self))) (start self) = (r, s) \<longrightarrow>
      snd (run self program inbuf) = \<lparr>tape = tape s, ptr = ptr s, max_steps = max_steps self\<rparr>)
   \<and> (build_bracket_map (sanitize program) = Inr bm
       \<and> exec_n (sanitize program) bm inbuf (int (length (tape self))) n (start self) = Inr s
       \<and> int n \<le> max_steps self \<and> length (sanitize program) \<le> ip s \<longrightarrow>
      run self program inbuf
        = (Inr (out_chars s), \<lparr>tape = tape s, ptr = ptr s, max_steps = max_steps self\<rparr>))
   \<and> (build_bracket_map (sanitize program) = Inr bm
       \<and> exec_n (sanitize program) bm inbuf (int (length (tape self))) (nat (max_steps self))
            (start self) = Inr s
       \<and> ip s < length (sanitize program) \<longrightarrow>
      run self program inbuf
        = (Inl (StepLimitExceeded (max_steps self)),
           \<lparr>tape = tape s, ptr = ptr s, max_steps = max_steps self\<rparr>))
   \<and> (reachable tape_size limit self \<and> 1 \<le> limit \<longrightarrow>
      snd (run self ''+'' inbuf)
        = self\<lparr>tape := (tape self)[nat (ptr self) := (tape self ! nat (ptr self) + 1) mod 256]\<rparr>
      \<and> fst (run (snd (run self ''+'' inbuf)) ''.'' inbuf2)
        = Inr [nat ((tape self ! nat (ptr self) + 1) mod 256)])
   \<and> (init tape_size limit = Inr self0 \<and> 1 \<le> limit \<longrightarrow>
      fst (run (snd (run self0 ''+'' inbuf)) ''.'' inbuf2) = Inr [1]
      \<and> fst (run self0 ''.'' inbuf2) = Inr [0])
   \<and> (reachable tape_size limit self \<longrightarrow>
      length (tape self) = nat tape_size \<and> max_steps self = limit)
   \<and> (build_bracket_map (sanitize program) = Inl e \<longrightarrow> snd (run self program inbuf) = self)"
proof -
  have a: "init tape_size limit = Inr self0 \<longrightarrow>
      tape self0 = replicate (nat tape_size) 0 \<and> ptr self0 = 0"
    by (auto simp: init_def split: if_splits)
  have p1: "build_bracket_map (sanitize program) = Inr bm
       \<and> loop (sanitize program) bm inbuf (int (length (tape self))) (start self) = (r, s) \<longrightarrow>
      snd (run self program inbuf) = \<lparr>tape = tape s, ptr = ptr s, max_steps = max_steps self\<rparr>"
    using run_snd by blast
  have p2: "build_bracket_map (sanitize program) = Inr bm
       \<and> exec_n (sanitize program) bm inbuf (int (length (tape self))) n (start self) = Inr s
       \<and> int n \<le> max_steps self \<and> length (sanitize program) \<le> ip s \<longrightarrow>
      run self program inbuf
        = (Inr (out_chars s), \<lparr>tape = tape s, ptr = ptr s, max_steps = max_steps self\<rparr>)"
  proof
    assume h: "build_bracket_map (sanitize program) = Inr bm
       \<and> exec_n (sanitize program) bm inbuf (int (length (tape self))) n (start self) = Inr s
       \<and> int n \<le> max_steps self \<and> length (sanitize program) \<le> ip s"
    have l: "loop (sanitize program) bm inbuf (int (length (tape self))) (start self) = (None, s)"
      by (rule loop_done [where n = n]) (use h in \<open>simp_all add: start_fields\<close>)
    show "run self program inbuf
        = (Inr (out_chars s), \<lparr>tape = tape s, ptr = ptr s, max_steps = max_steps self\<rparr>)"
      using h run_loop [OF _ l] loop_keeps [OF l] by (simp add: start_fields)
  qed
  have p3: "build_bracket_map (sanitize program) = Inr bm
       \<and> exec_n (sanitize program) bm inbuf (int (length (tape self))) (nat (max_steps self))
            (start self) = Inr s
       \<and> ip s < length (sanitize program) \<longrightarrow>
      run self program inbuf
        = (Inl (StepLimitExceeded (max_steps self)),
           \<lparr>tape = tape s, ptr = ptr s, max_steps = max_steps self\<rparr>)"
  proof
    assume h: "build_bracket_map (sanitize program) = Inr bm
       \<and> exec_n (sanitize program) bm inbuf (int (length (tape self))) (nat (max_steps self))
            (start self) = Inr s
       \<and> ip s < length (sanitize program)"
    have l: "loop (sanitize program) bm inbuf (int (length (tape self))) (start self)
        = (Some (StepLimitExceeded (max_steps (start self))), s)"
      by (rule loop_limit [where n = "nat (max_steps self)"])
        (use h in \<open>simp_all add: start_fields\<close>)
    show "run self program inbuf
        = (Inl (StepLimitExceeded (max_steps self)),
           \<lparr>tape = tape s, ptr = ptr s, max_steps = max_steps self\<rparr>)"
      using h run_loop [OF _ l] loop_keeps [OF l] by (simp add: start_fields)
  qed
  have p4: "reachable tape_size limit self \<and> 1 \<le> limit \<longrightarrow>
      snd (run self ''+'' inbuf)
        = self\<lparr>tape := (tape self)[nat (ptr self) := (tape self ! nat (ptr self) + 1) mod 256]\<rparr>
      \<and> fst (run (snd (run self ''+'' inbuf)) ''.'' inbuf2)
        = Inr [nat ((tape self ! nat (ptr self) + 1) mod 256)]"
  proof
    assume h: "reachable tape_size limit self \<and> 1 \<le> limit"
    then have i: "0 \<le> ptr self" "ptr self < int (length (tape self))" "1 \<le> max_steps self"
      using reachable_inv [of tape_size limit self] by simp_all
    show "snd (run self ''+'' inbuf)
        = self\<lparr>tape := (tape self)[nat (ptr self) := (tape self ! nat (ptr self) + 1) mod 256]\<rparr>
      \<and> fst (run (snd (run self ''+'' inbuf)) ''.'' inbuf2)
        = Inr [nat ((tape self ! nat (ptr self) + 1) mod 256)]"
      using run_plus [OF i] run_plus_then_dot [OF i] by simp
  qed
  have p5: "init tape_size limit = Inr self0 \<and> 1 \<le> limit \<longrightarrow>
      fst (run (snd (run self0 ''+'' inbuf)) ''.'' inbuf2) = Inr [1]
      \<and> fst (run self0 ''.'' inbuf2) = Inr [0]"
  proof
    assume h: "init tape_size limit = Inr self0 \<and> 1 \<le> limit"
    then have f: "self0 = \<lparr>tape = replicate (nat tape_size) 0, ptr = 0, max_steps = limit\<rparr>"
      and pos: "0 < tape_size"
      by (auto simp: init_def split: if_splits)
    have i: "0 \<le> ptr self0" "ptr self0 < int (length (tape self0))" "1 \<le> max_steps self0"
      and c: "tape self0 ! nat (ptr self0) = 0"
      using h pos by (simp_all add: f)
    have "run self0 ''.'' inbuf2 = (Inr [nat (tape self0 ! nat (ptr self0))], self0)"
      by (rule run_dot [OF i]) (simp_all add: c)
    then show "fst (run (snd (run self0 ''+'' inbuf)) ''.'' inbuf2) = Inr [1]
      \<and> fst (run self0 ''.'' inbuf2) = Inr [0]"
      using run_plus_then_dot [OF i] c by simp
  qed
  have p6: "reachable tape_size limit self \<longrightarrow>
      length (tape self) = nat tape_size \<and> max_steps self = limit"
    using reachable_inv [of tape_size limit self] by auto
  have p7: "build_bracket_map (sanitize program) = Inl e \<longrightarrow> snd (run self program inbuf) = self"
    by (simp add: run_bracket_error)
  show ?thesis
    by (intro conjI; (fact a p1 p2 p3 p4 p5 p6 p7 | simp add: start_fields))
qed

theorem tape_lives_in_the_instance_counterexample:
  "init 1 10 = Inr \<lparr>tape = [0], ptr = 0, max_steps = 10\<rparr>
   \<and> run \<lparr>tape = [0], ptr = 0, max_steps = 10\<rparr> ''+'' []
       = (Inr [], \<lparr>tape = [1], ptr = 0, max_steps = 10\<rparr>)
   \<and> run \<lparr>tape = [1], ptr = 0, max_steps = 10\<rparr> ''.'' []
       = (Inr [1], \<lparr>tape = [1], ptr = 0, max_steps = 10\<rparr>)
   \<and> run \<lparr>tape = [0], ptr = 0, max_steps = 10\<rparr> ''.'' []
       = (Inr [0], \<lparr>tape = [0], ptr = 0, max_steps = 10\<rparr>)
   \<and> fst (run (snd (run \<lparr>tape = [0], ptr = 0, max_steps = 10\<rparr> ''+'' [])) ''.'' [])
       \<noteq> fst (run \<lparr>tape = [0], ptr = 0, max_steps = 10\<rparr> ''.'' [])"
  by (simp add: init_def run_def sanitize_def BF_CHARS_def build_bracket_map_def start_def
      loop.simps iteration_def exec_cmd_def setitem_def getitem_def advance_def chr_def)

theorem tape_lives_in_the_instance_witness:
  "init 1 10 = Inr \<lparr>tape = [0], ptr = 0, max_steps = 10\<rparr>
   \<and> tape \<lparr>tape = [0], ptr = 0, max_steps = 10\<rparr> = replicate (nat 1) 0 \<and> ptr \<lparr>tape = [0], ptr = 0, max_steps = 10\<rparr> = 0
   \<and> build_bracket_map (sanitize ''+'') = Inr Map.empty
   \<and> loop (sanitize ''+'') Map.empty [] (int (length (tape \<lparr>tape = [0], ptr = 0, max_steps = 10\<rparr>))) (start \<lparr>tape = [0], ptr = 0, max_steps = 10\<rparr>)
       = (None, \<lparr>tape = [1], ptr = 0, max_steps = 10, ip = 1, steps = 1, out_chars = [], in_idx = 0\<rparr>)
   \<and> snd (run \<lparr>tape = [0], ptr = 0, max_steps = 10\<rparr> ''+'' []) = \<lparr>tape = [1], ptr = 0, max_steps = 10\<rparr>
   \<and> exec_n (sanitize ''+'') Map.empty [] (int (length (tape \<lparr>tape = [0], ptr = 0, max_steps = 10\<rparr>))) 1 (start \<lparr>tape = [0], ptr = 0, max_steps = 10\<rparr>)
       = Inr \<lparr>tape = [1], ptr = 0, max_steps = 10, ip = 1, steps = 1, out_chars = [], in_idx = 0\<rparr>
   \<and> run \<lparr>tape = [0], ptr = 0, max_steps = 10\<rparr> ''+'' [] = (Inr [], \<lparr>tape = [1], ptr = 0, max_steps = 10\<rparr>)
   \<and> build_bracket_map (sanitize ''+[]'') = Inr [1 \<mapsto> 2, 2 \<mapsto> 1]
   \<and> exec_n (sanitize ''+[]'') [1 \<mapsto> 2, 2 \<mapsto> 1] [] (int (length (tape \<lparr>tape = [0], ptr = 0, max_steps = 3\<rparr>)))
        (nat (max_steps \<lparr>tape = [0], ptr = 0, max_steps = 3\<rparr>)) (start \<lparr>tape = [0], ptr = 0, max_steps = 3\<rparr>)
       = Inr \<lparr>tape = [1], ptr = 0, max_steps = 3, ip = 2, steps = 3, out_chars = [], in_idx = 0\<rparr>
   \<and> run \<lparr>tape = [0], ptr = 0, max_steps = 3\<rparr> ''+[]'' [] = (Inl (StepLimitExceeded 3), \<lparr>tape = [1], ptr = 0, max_steps = 3\<rparr>)
   \<and> reachable 1 10 \<lparr>tape = [0], ptr = 0, max_steps = 10\<rparr>
   \<and> fst (run (snd (run \<lparr>tape = [0], ptr = 0, max_steps = 10\<rparr> ''+'' [])) ''.'' []) = Inr [1]
   \<and> fst (run \<lparr>tape = [0], ptr = 0, max_steps = 10\<rparr> ''.'' []) = Inr [0]
   \<and> length (tape \<lparr>tape = [0], ptr = 0, max_steps = 10\<rparr>) = nat 1 \<and> max_steps \<lparr>tape = [0], ptr = 0, max_steps = 10\<rparr> = 10
   \<and> build_bracket_map (sanitize ''[+'') = Inl (UnmatchedOpen 0)
   \<and> snd (run \<lparr>tape = [0], ptr = 0, max_steps = 10\<rparr> ''[+'' []) = \<lparr>tape = [0], ptr = 0, max_steps = 10\<rparr>"
proof -
  let ?a = "\<lparr>tape = [0], ptr = 0, max_steps = 10\<rparr>"
  let ?a3 = "\<lparr>tape = [0], ptr = 0, max_steps = 3\<rparr>"
  let ?s = "\<lparr>tape = [1], ptr = 0, max_steps = 10, ip = 1, steps = 1, out_chars = [], in_idx = 0\<rparr>"
  let ?s3 = "\<lparr>tape = [1], ptr = 0, max_steps = 3, ip = 2, steps = 3, out_chars = [], in_idx = 0\<rparr>"
  have i: "init 1 10 = Inr ?a"
    by (simp add: init_def)
  have r: "reachable 1 10 ?a"
    by (rule reachable.fresh [OF i])
  have b: "build_bracket_map (sanitize ''+'') = Inr Map.empty"
    by (simp add: sanitize_plus bm_plus)
  have l: "loop (sanitize ''+'') Map.empty [] (int (length (tape ?a))) (start ?a) = (None, ?s)"
    by (simp add: sanitize_plus start_def loop.simps iteration_def exec_cmd_def advance_def
        getitem_def setitem_def)
  have e: "exec_n (sanitize ''+'') Map.empty [] (int (length (tape ?a))) 1 (start ?a) = Inr ?s"
    by (simp add: sanitize_plus start_def exec_cmd_def advance_def getitem_def setitem_def)
  have e': "int 1 \<le> max_steps ?a \<and> length (sanitize ''+'') \<le> ip ?s"
    by (simp add: sanitize_plus)
  have b3: "build_bracket_map (sanitize ''+[]'') = Inr [1 \<mapsto> 2, 2 \<mapsto> 1]"
    by (simp add: sanitize_def BF_CHARS_def build_bracket_map_def eval_nat_numeral)
  have e3: "exec_n (sanitize ''+[]'') [1 \<mapsto> 2, 2 \<mapsto> 1] [] (int (length (tape ?a3)))
        (nat (max_steps ?a3)) (start ?a3) = Inr ?s3"
    by (simp add: sanitize_def BF_CHARS_def eval_nat_numeral start_def exec_cmd_def advance_def
        getitem_def setitem_def)
  have e3': "ip ?s3 < length (sanitize ''+[]'')"
    by (simp add: sanitize_def BF_CHARS_def)
  have lim: "(1 :: int) \<le> 10"
    by simp
  have u: "build_bracket_map (sanitize ''[+'') = Inl (UnmatchedOpen 0)"
    by (simp add: sanitize_def BF_CHARS_def build_bracket_map_def)
  note t = tape_lives_in_the_instance [where tape_size = 1 and limit = 10 and ?self0.0 = ?a
      and inbuf = "[]" and ?inbuf2.0 = "[]"]
  note c0 = t [THEN conjunct1, THEN mp, OF i]
  note c1 = t [where self = ?a and program = "''+''" and bm = Map.empty and r = None and s = ?s,
      THEN conjunct2, THEN conjunct2, THEN conjunct2, THEN conjunct2, THEN conjunct2, THEN conjunct2, THEN conjunct2, THEN conjunct1, THEN mp, OF conjI [OF b l]]
  note c2 = t [where self = ?a and program = "''+''" and bm = Map.empty and n = 1 and s = ?s,
      THEN conjunct2, THEN conjunct2, THEN conjunct2, THEN conjunct2, THEN conjunct2, THEN conjunct2, THEN conjunct2, THEN conjunct2, THEN conjunct1, THEN mp, OF conjI [OF b conjI [OF e e']]]
  note c3 = t [where self = ?a3 and program = "''+[]''" and bm = "[1 \<mapsto> 2, 2 \<mapsto> 1]" and s = ?s3,
      THEN conjunct2, THEN conjunct2, THEN conjunct2, THEN conjunct2, THEN conjunct2, THEN conjunct2, THEN conjunct2, THEN conjunct2, THEN conjunct2, THEN conjunct1, THEN mp, OF conjI [OF b3 conjI [OF e3 e3']]]
  note c4 = t [where self = ?a, THEN conjunct2, THEN conjunct2, THEN conjunct2, THEN conjunct2, THEN conjunct2, THEN conjunct2, THEN conjunct2, THEN conjunct2, THEN conjunct2, THEN conjunct2, THEN conjunct1, THEN mp, OF conjI [OF r lim]]
  note c5 = t [THEN conjunct2, THEN conjunct2, THEN conjunct2, THEN conjunct2, THEN conjunct2, THEN conjunct2, THEN conjunct2, THEN conjunct2, THEN conjunct2, THEN conjunct2, THEN conjunct2, THEN conjunct1, THEN mp, OF conjI [OF i lim]]
  note c6 = t [where self = ?a, THEN conjunct2, THEN conjunct2, THEN conjunct2, THEN conjunct2, THEN conjunct2, THEN conjunct2, THEN conjunct2, THEN conjunct2, THEN conjunct2, THEN conjunct2, THEN conjunct2, THEN conjunct2, THEN conjunct1, THEN mp, OF r]
  note c7 = t [where self = ?a and program = "''[+''" and e = "UnmatchedOpen 0", THEN conjunct2, THEN conjunct2, THEN conjunct2, THEN conjunct2, THEN conjunct2, THEN conjunct2, THEN conjunct2, THEN conjunct2, THEN conjunct2, THEN conjunct2, THEN conjunct2, THEN conjunct2, THEN conjunct2, THEN mp, OF u]
  show ?thesis
    using i c0 b l c1 e c2 b3 e3 c3 r c5 c6 u c7 by simp
qed

text \<open>
  An instruction keeps all cells in \<open>[0, b)\<close> for every bound \<open>b \<ge> 256\<close> above the
  codes of the input characters: the cells stay bytes as long as every input character
  has a code below 256, and they stay valid arguments of \<open>chr\<close> in any case.
\<close>

lemma setitem_set: "setitem xs i v = Inr ys \<Longrightarrow> set ys \<subseteq> insert v (set xs)"
  by (auto simp: setitem_def split: if_splits dest: subsetD [OF set_update_subset_insert])

lemma exec_cmd_tape_bound:
  assumes "exec_cmd cmd bm inbuf tlen s = Inr s'" and "list_all (\<lambda>c. int c < b) inbuf"
    and "256 \<le> b"
  shows "tape s' = tape s \<or>
    (\<exists>w. 0 \<le> w \<and> w < b \<and> setitem (tape s) (ptr s) w = Inr (tape s'))"
proof -
  consider "cmd = CHR ''+''" | "cmd = CHR ''-''" | "cmd = CHR '',''"
    | "cmd \<noteq> CHR ''+'' \<and> cmd \<noteq> CHR ''-'' \<and> cmd \<noteq> CHR '',''"
    by blast
  then show ?thesis
  proof cases
    case 1
    then obtain v where "setitem (tape s) (ptr s) ((v + 1) mod 256) = Inr (tape s')"
      using assms(1) by (auto simp: exec_cmd_def advance_def split: sum.splits)
    moreover have "0 \<le> (v + 1) mod 256" "(v + 1) mod 256 < b"
      using assms(3) pos_mod_bound [of 256 "v + 1"] by simp_all
    ultimately show ?thesis by blast
  next
    case 2
    then obtain v where "setitem (tape s) (ptr s) ((v - 1) mod 256) = Inr (tape s')"
      using assms(1) by (auto simp: exec_cmd_def advance_def split: sum.splits)
    moreover have "0 \<le> (v - 1) mod 256" "(v - 1) mod 256 < b"
      using assms(3) pos_mod_bound [of 256 "v - 1"] by simp_all
    ultimately show ?thesis by blast
  next
    case 3
    show ?thesis
    proof (cases "in_idx s < length inbuf")
      case True
      then have "setitem (tape s) (ptr s) (int (inbuf ! in_idx s)) = Inr (tape s')"
        using assms(1) 3 by (auto simp: exec_cmd_def advance_def split: sum.splits)
      moreover have "int (inbuf ! in_idx s) < b"
        using True assms(2) by (simp add: list_all_length)
      ultimately show ?thesis by force
    next
      case False
      then have "setitem (tape s) (ptr s) 0 = Inr (tape s')"
        using assms(1) 3 by (auto simp: exec_cmd_def advance_def split: sum.splits)
      then show ?thesis using assms(3) by force
    qed
  next
    case 4
    then have "tape s' = tape s"
      using assms(1)
      by (auto simp: exec_cmd_def advance_def split: if_splits sum.splits option.splits)
    then show ?thesis by simp
  qed
qed

lemma exec_cmd_cells:
  assumes "exec_cmd cmd bm inbuf tlen s = Inr s'" and "cells_below b (tape s)"
    and "list_all (\<lambda>c. int c < b) inbuf" and "256 \<le> b"
  shows "cells_below b (tape s')"
  using exec_cmd_tape_bound [OF assms(1,3,4)]
proof
  assume "tape s' = tape s"
  then show ?thesis using assms(2) by simp
next
  assume "\<exists>w. 0 \<le> w \<and> w < b \<and> setitem (tape s) (ptr s) w = Inr (tape s')"
  then obtain w where w: "0 \<le> w" "w < b" "setitem (tape s) (ptr s) w = Inr (tape s')"
    by blast
  show ?thesis
    using setitem_set [OF w(3)] w(1,2) assms(2) unfolding cells_below_def list_all_iff by blast
qed

lemma valid_str_bound: "valid_str inbuf \<Longrightarrow> list_all (\<lambda>c. int c < 0x110000) inbuf"
  by (simp add: valid_str_def list_all_iff)

lemma loop_cells:
  "loop program bm inbuf tlen s = (r, s') \<Longrightarrow> cells_below 0x110000 (tape s) \<Longrightarrow>
     valid_str inbuf \<Longrightarrow> cells_below 0x110000 (tape s')"
proof (induction program bm inbuf tlen s rule: loop.induct)
  case (1 program bm inbuf tlen s)
  show ?case
  proof (cases "ip s < length program")
    case False
    then show ?thesis using "1.prems" by (simp add: loop.simps)
  next
    case True
    show ?thesis
    proof (cases "iteration program bm inbuf tlen s")
      case (Inl e)
      then show ?thesis using "1.prems" True by (simp add: loop.simps)
    next
      case (Inr s1)
      then have l: "loop program bm inbuf tlen s1 = (r, s')"
        using "1.prems" True by (simp add: loop.simps)
      have "exec_cmd (program ! ip s) bm inbuf tlen (s\<lparr>steps := steps s + 1\<rparr>) = Inr s1"
        using Inr by (simp add: iteration_Inr)
      then have "cells_below 0x110000 (tape s1)"
        using exec_cmd_cells [where b = "0x110000"] "1.prems"(2,3) valid_str_bound by force
      with "1.IH" [OF True Inr l] "1.prems"(3) show ?thesis by simp
    qed
  qed
qed

lemma run_cells:
  assumes "cells_below 0x110000 (tape self)" "valid_str inbuf"
  shows "cells_below 0x110000 (tape (snd (run self program inbuf)))"
proof (cases "build_bracket_map (sanitize program)")
  case (Inl e)
  then show ?thesis using assms by (simp add: run_bracket_error)
next
  case (Inr bm)
  obtain r s where l: "loop (sanitize program) bm inbuf (int (length (tape self))) (start self) = (r, s)"
    by (cases "loop (sanitize program) bm inbuf (int (length (tape self))) (start self)")
  show ?thesis using loop_cells [OF l] assms by (simp add: run_loop [OF Inr l] start_fields)
qed

lemma reachable_cells:
  "reachable tape_size limit self \<Longrightarrow> cells_below 0x110000 (tape self)"
proof (induction rule: reachable.induct)
  case (fresh tape_size limit self)
  then show ?case by (auto simp: init_def cells_below_def list_all_iff split: if_splits)
next
  case (ran tape_size limit self inbuf program)
  then show ?case by (simp add: run_cells)
qed

lemma exec_cmd_bytes:
  assumes "exec_cmd cmd bm inbuf tlen s = Inr s'" and "cells_below 256 (tape s)"
    and "list_all (\<lambda>c. c < 256) inbuf"
  shows "cells_below 256 (tape s')"
proof -
  have "list_all (\<lambda>c. int c < 256) inbuf"
    using assms(3) by (simp add: list_all_iff)
  from exec_cmd_cells [OF assms(1,2) this] show ?thesis by simp
qed

text \<open>
  No run of an interpreter a caller can hold raises \<open>IndexError\<close>, \<open>KeyError\<close> or
  \<open>ChrRangeError\<close>: the dispatch loop ends normally or with \<open>StepLimitExceeded\<close>, and a
  run returns its output or fails with \<open>StepLimitExceeded\<close> or a bracket error.
\<close>

lemma exec_cmd_total:
  assumes "0 \<le> ptr s" "ptr s < int (length (tape s))" "cells_below 0x110000 (tape s)"
    and "cmd = CHR ''['' \<or> cmd = CHR '']'' \<Longrightarrow> bm (ip s) \<noteq> None"
  shows "\<exists>s'. exec_cmd cmd bm inbuf tlen s = Inr s'"
proof -
  have g: "getitem (tape s) (ptr s) = Inr (tape s ! nat (ptr s))"
    using assms(1,2) by (simp add: getitem_def)
  have u: "setitem (tape s) (ptr s) w = Inr ((tape s)[nat (ptr s) := w])" for w
    using assms(1,2) by (simp add: setitem_def)
  have "0 \<le> tape s ! nat (ptr s) \<and> tape s ! nat (ptr s) < 0x110000"
    using assms(1,2,3) by (simp add: cells_below_def list_all_length)
  then have c: "chr (tape s ! nat (ptr s)) = Inr (nat (tape s ! nat (ptr s)))"
    by (simp add: chr_def)
  show ?thesis
    using assms(4) by (auto simp: exec_cmd_def g u c)
qed


lemma bracket_map_defined:
  assumes "build_bracket_map program = Inr bm" "i < length program"
    and "program ! i = CHR ''['' \<or> program ! i = CHR '']''"
  shows "bm i \<noteq> None"
proof -
  have "scan (enumerate 0 program) [] Map.empty = Inr ([], bm)"
    using assms(1) by (simp add: build_bracket_map_Inr)
  from scan_program(4) [OF this] have "i \<in> dom bm"
    using assms(2,3) by auto
  then show ?thesis by auto
qed

lemma loop_outcome:
  "build_bracket_map program = Inr bm \<Longrightarrow> valid_str inbuf \<Longrightarrow>
   0 \<le> ptr s \<Longrightarrow> ptr s < tlen \<Longrightarrow> tlen = int (length (tape s)) \<Longrightarrow>
   cells_below 0x110000 (tape s) \<Longrightarrow>
     fst (loop program bm inbuf tlen s) = None \<or>
     fst (loop program bm inbuf tlen s) = Some (StepLimitExceeded (max_steps s))"
proof (induction program bm inbuf tlen s rule: loop.induct)
  case (1 program bm inbuf tlen s)
  show ?case
  proof (cases "ip s < length program")
    case False
    then show ?thesis by (simp add: loop.simps)
  next
    case True
    show ?thesis
    proof (cases "max_steps s \<le> steps s")
      case True
      then show ?thesis using \<open>ip s < length program\<close> by (simp add: loop_check)
    next
      case False
      let ?s = "s\<lparr>steps := steps s + 1\<rparr>"
      have "\<exists>s1. exec_cmd (program ! ip s) bm inbuf tlen ?s = Inr s1"
        by (rule exec_cmd_total)
          (use "1.prems" True bracket_map_defined [of program bm "ip s"] in simp_all)
      then obtain s1 where e: "exec_cmd (program ! ip s) bm inbuf tlen ?s = Inr s1" ..
      have it: "iteration program bm inbuf tlen s = Inr s1"
        using e False by (simp add: iteration_Inr)
      have k: "max_steps s1 = max_steps s" "length (tape s1) = length (tape s)"
        using iteration_keeps [OF it] by simp_all
      have p: "0 \<le> ptr s1 \<and> ptr s1 < tlen"
        using iteration_ptr [OF it] "1.prems" by simp
      have c: "cells_below 0x110000 (tape s1)"
        using exec_cmd_cells [OF e, where b = "0x110000"] "1.prems"(2,6) valid_str_bound by simp
      have "fst (loop program bm inbuf tlen s1) = None \<or>
            fst (loop program bm inbuf tlen s1) = Some (StepLimitExceeded (max_steps s1))"
        using "1.IH" [OF True it "1.prems"(1,2)] p k(2) "1.prems"(5) c by simp
      moreover have "loop program bm inbuf tlen s = loop program bm inbuf tlen s1"
        using True it by (subst loop.simps) simp
      ultimately show ?thesis using k(1) by simp
    qed
  qed
qed

lemma scan_error: "scan ps stack m = Inl e \<Longrightarrow> \<exists>pos. e = UnmatchedClose pos"
  by (induction ps stack m rule: scan.induct) (auto simp: Let_def split: if_splits)

lemma build_bracket_map_error:
  "build_bracket_map program = Inl e \<Longrightarrow>
     (\<exists>pos. e = UnmatchedClose pos) \<or> (\<exists>pos. e = UnmatchedOpen pos)"
  by (auto simp: build_bracket_map_def split: sum.splits if_splits dest: scan_error)

lemma run_outcome:
  assumes "reachable tape_size limit self" "valid_str inbuf"
  shows "(\<exists>out. fst (run self program inbuf) = Inr out)
    \<or> fst (run self program inbuf) = Inl (StepLimitExceeded limit)
    \<or> (\<exists>pos. fst (run self program inbuf) = Inl (UnmatchedClose pos))
    \<or> (\<exists>pos. fst (run self program inbuf) = Inl (UnmatchedOpen pos))"
proof (cases "build_bracket_map (sanitize program)")
  case (Inl e)
  then have "(\<exists>pos. e = UnmatchedClose pos) \<or> (\<exists>pos. e = UnmatchedOpen pos)"
    by (rule build_bracket_map_error)
  then show ?thesis using Inl by (auto simp: run_bracket_error)
next
  case (Inr bm)
  note inv = reachable_inv [OF assms(1)]
  obtain r s where l: "loop (sanitize program) bm inbuf (int (length (tape self))) (start self) = (r, s)"
    by (cases "loop (sanitize program) bm inbuf (int (length (tape self))) (start self)")
  have "fst (loop (sanitize program) bm inbuf (int (length (tape self))) (start self)) = None \<or>
     fst (loop (sanitize program) bm inbuf (int (length (tape self))) (start self))
       = Some (StepLimitExceeded (max_steps (start self)))"
    by (rule loop_outcome [OF Inr assms(2)])
      (use inv reachable_cells [OF assms(1)] in \<open>simp_all add: start_fields\<close>)
  then have "r = None \<or> r = Some (StepLimitExceeded limit)"
    using l inv by (simp add: start_fields)
  then show ?thesis using run_loop [OF Inr l] by auto
qed

text \<open>
  C6 (every tape cell lies in \<open>[0, 256)\<close>, for every input text) fails on the code:
  \<open>,\<close> stores \<open>ord\<close> of the input character as it is, while \<open>+\<close> and \<open>-\<close> reduce
  modulo 256. On the program \<open>,\<close> with the input character U+20AC the cell holds 8364
  when the run returns.
\<close>

theorem comma_stores_code_point_unreduced:
  "init 1 10 = Inr \<lparr>tape = [0], ptr = 0, max_steps = 10\<rparr>
   \<and> run \<lparr>tape = [0], ptr = 0, max_steps = 10\<rparr> '','' [8364]
       = (Inr [], \<lparr>tape = [8364], ptr = 0, max_steps = 10\<rparr>)
   \<and> \<not> (8364 :: int) < 256
   \<and> run \<lparr>tape = [0], ptr = 0, max_steps = 10\<rparr> ''+'' []
       = (Inr [], \<lparr>tape = [(0 + 1) mod 256], ptr = 0, max_steps = 10\<rparr>)"
  by (simp add: init_def run_def sanitize_def BF_CHARS_def build_bracket_map_def start_def
      loop.simps iteration_def exec_cmd_def setitem_def getitem_def advance_def)

end
